theory Spec2Isabelle
  imports Complex_Main "HOL-Library.AList"
begin

section \<open>Python dictionaries\<close>

text \<open>
  The services keep their state in Python dictionaries. A dictionary is an association
  list with distinct keys in insertion order: \<open>AList.update\<close> overwrites in place or
  appends a new key at the end, \<open>AList.delete\<close> removes a key. Reading a missing key of a
  \<open>defaultdict\<close> inserts the default value first and returns it.
\<close>

definition dd_get :: "('k \<times> 'v) list \<Rightarrow> 'k \<Rightarrow> 'v \<Rightarrow> ('k \<times> 'v) list \<times> 'v" where
  "dd_get d k dflt =
     (case map_of d k of
        Some v \<Rightarrow> (d, v)
      | None \<Rightarrow> (d @ [(k, dflt)], dflt))"

definition lookup_default :: "'v \<Rightarrow> ('k \<times> 'v) list \<Rightarrow> 'k \<Rightarrow> 'v" where
  "lookup_default dflt d k = (case map_of d k of Some v \<Rightarrow> v | None \<Rightarrow> dflt)"

section \<open>The public tier's rate limiter (app.py)\<close>

definition RATE_LIMIT_WINDOW :: real where
  "RATE_LIMIT_WINDOW = 60"

definition MAX_REQUESTS_PER_USER :: nat where
  "MAX_REQUESTS_PER_USER = 3"

definition MAX_CONCURRENT_JOBS :: int where
  "MAX_CONCURRENT_JOBS = 2"

definition GLOBAL_RATE_LIMIT :: nat where
  "GLOBAL_RATE_LIMIT = 10"

text \<open>
  The module globals \<open>user_request_times\<close>, \<open>user_concurrent_jobs\<close> and
  \<open>last_cleanup\<close>. Readings of \<open>time.time()\<close> are real numbers of seconds.
\<close>

record limiter =
  user_request_times :: "(string \<times> real list) list"
  user_concurrent_jobs :: "(string \<times> int) list"
  last_cleanup :: real

definition init_limiter :: "real \<Rightarrow> limiter" where
  "init_limiter t_start =
     \<lparr>user_request_times = [], user_concurrent_jobs = [], last_cleanup = t_start\<rparr>"

text \<open>
  The loop of \<open>cleanup_old_requests\<close> over \<open>list(user_request_times.keys())\<close>: the
  user's list is replaced by its entries newer than the cutoff, and the user is deleted
  when nothing is left.
\<close>

fun cleanup_loop :: "real \<Rightarrow> string list \<Rightarrow> (string \<times> real list) list \<Rightarrow> (string \<times> real list) list" where
  "cleanup_loop cutoff_time [] d = d"
| "cleanup_loop cutoff_time (user_id # rest) d =
     (let kept = filter (\<lambda>t. t > cutoff_time) (lookup_default [] d user_id);
          d1 = AList.update user_id kept d;
          d2 = (if kept = [] then AList.delete user_id d1 else d1)
      in cleanup_loop cutoff_time rest d2)"

definition cleanup_old_requests :: "limiter \<Rightarrow> real \<Rightarrow> limiter" where
  "cleanup_old_requests s current_time =
     (if current_time - last_cleanup s < 10 then s
      else s\<lparr>user_request_times :=
                cleanup_loop (current_time - RATE_LIMIT_WINDOW)
                  (map fst (user_request_times s)) (user_request_times s),
             last_cleanup := current_time\<rparr>)"

definition rate_msg :: string where
  "rate_msg = ''Rate limit exceeded. Please wait 60 seconds between requests.''"

definition concurrent_msg :: string where
  "concurrent_msg = ''Too many concurrent jobs. Please wait for your current generations to complete.''"

definition busy_msg :: string where
  "busy_msg = ''Server is busy. Please try again later.''"

text \<open>
  \<open>check_rate_limit\<close>: the session's user id (absent or empty: no session), the clock
  reading taken by the cleanup and the one taken by the check itself. The result is the
  new limiter state and the pair \<open>(can_proceed, error)\<close>.
\<close>

definition check_rate_limit ::
  "limiter \<Rightarrow> string option \<Rightarrow> real \<Rightarrow> real \<Rightarrow> limiter \<times> bool \<times> string" where
  "check_rate_limit s session_user cleanup_time current_time =
     (let s1 = cleanup_old_requests s cleanup_time in
      case session_user of
        None \<Rightarrow> (s1, False, ''No user session'')
      | Some user_id \<Rightarrow>
          if user_id = [] then (s1, False, ''No user session'')
          else
            let (times1, user_requests) = dd_get (user_request_times s1) user_id [];
                s2 = s1\<lparr>user_request_times := times1\<rparr>
            in if length user_requests \<ge> MAX_REQUESTS_PER_USER then (s2, False, rate_msg)
               else
                 let (jobs1, running) = dd_get (user_concurrent_jobs s2) user_id 0;
                     s3 = s2\<lparr>user_concurrent_jobs := jobs1\<rparr>
                 in if running \<ge> MAX_CONCURRENT_JOBS then (s3, False, concurrent_msg)
                    else
                      let total_requests = sum_list (map (\<lambda>p. length (snd p)) times1)
                      in if total_requests \<ge> GLOBAL_RATE_LIMIT then (s3, False, busy_msg)
                         else (s3\<lparr>user_request_times :=
                                      AList.update user_id (user_requests @ [current_time]) times1,
                                    user_concurrent_jobs :=
                                      AList.update user_id (running + 1) jobs1\<rparr>,
                               True, ''''))"

definition rate_limit_complete :: "limiter \<Rightarrow> string \<Rightarrow> limiter" where
  "rate_limit_complete s user_id =
     (let (jobs1, running) = dd_get (user_concurrent_jobs s) user_id 0
      in s\<lparr>user_concurrent_jobs := AList.update user_id (max 0 (running - 1)) jobs1\<rparr>)"

text \<open>Observers of the limiter state, as the checks read it.\<close>

definition request_count :: "limiter \<Rightarrow> string \<Rightarrow> nat" where
  "request_count s user_id = length (lookup_default [] (user_request_times s) user_id)"

definition running_jobs :: "limiter \<Rightarrow> string \<Rightarrow> int" where
  "running_jobs s user_id = lookup_default 0 (user_concurrent_jobs s) user_id"

definition total_requests :: "limiter \<Rightarrow> nat" where
  "total_requests s = sum_list (map (\<lambda>p. length (snd p)) (user_request_times s))"

text \<open>
  A timestamp lies in the trailing window of a clock reading when it is newer than the
  reading minus the window size (the test the cleanup applies).
\<close>

definition in_trailing_window :: "real \<Rightarrow> real \<Rightarrow> bool" where
  "in_trailing_window current_time t \<longleftrightarrow> t > current_time - RATE_LIMIT_WINDOW"

definition trailing_count :: "limiter \<Rightarrow> string \<Rightarrow> real \<Rightarrow> nat" where
  "trailing_count s user_id current_time =
     length (filter (in_trailing_window current_time)
       (lookup_default [] (user_request_times s) user_id))"

subsection \<open>Runs of the limiter\<close>

text \<open>
  The limiter is driven by two operations: an admission check (with its two clock
  readings) and the release of a slot. A run applies them one after the other, as the
  request handlers do under \<open>request_lock\<close>; \<open>admitted\<close> collects the user and
  timestamp of every check that answered \<open>True\<close>. In a well-timed run the clock never
  goes back.
\<close>

datatype lim_event = Check "string option" real real | Complete string

fun lim_step :: "limiter \<Rightarrow> lim_event \<Rightarrow> limiter" where
  "lim_step s (Check session_user t0 t1) = fst (check_rate_limit s session_user t0 t1)"
| "lim_step s (Complete user_id) = rate_limit_complete s user_id"

fun lim_run :: "limiter \<Rightarrow> lim_event list \<Rightarrow> limiter" where
  "lim_run s [] = s"
| "lim_run s (e # es) = lim_run (lim_step s e) es"

fun admitted_by :: "limiter \<Rightarrow> lim_event \<Rightarrow> (string \<times> real) list" where
  "admitted_by s (Check session_user t0 t1) =
     (case session_user of
        None \<Rightarrow> []
      | Some user_id \<Rightarrow>
          if fst (snd (check_rate_limit s session_user t0 t1)) then [(user_id, t1)] else [])"
| "admitted_by s (Complete user_id) = []"

fun admitted :: "limiter \<Rightarrow> lim_event list \<Rightarrow> (string \<times> real) list" where
  "admitted s [] = []"
| "admitted s (e # es) = admitted_by s e @ admitted (lim_step s e) es"

fun well_timed :: "real \<Rightarrow> lim_event list \<Rightarrow> bool" where
  "well_timed clock [] = True"
| "well_timed clock (Check session_user t0 t1 # es) =
     (clock \<le> t0 \<and> t0 \<le> t1 \<and> well_timed t1 es)"
| "well_timed clock (Complete user_id # es) = well_timed clock es"

text \<open>
  The admitted requests of a log that fall into the window \<open>[a, a + 60)\<close>: those of one
  user, and those of all users.
\<close>

definition in_window :: "real \<Rightarrow> real \<Rightarrow> bool" where
  "in_window a t \<longleftrightarrow> a \<le> t \<and> t < a + RATE_LIMIT_WINDOW"

definition user_window_count :: "(string \<times> real) list \<Rightarrow> string \<Rightarrow> real \<Rightarrow> nat" where
  "user_window_count adm user_id a =
     length (filter (\<lambda>p. fst p = user_id \<and> in_window a (snd p)) adm)"

definition global_window_count :: "(string \<times> real) list \<Rightarrow> real \<Rightarrow> nat" where
  "global_window_count adm a = length (filter (\<lambda>p. in_window a (snd p)) adm)"

section \<open>Python values and library functions\<close>

text \<open>
  The values a JSON request body can hold. A character is a code point below 256; a JSON
  array or object inside the body is kept only as a flag that says whether it is
  non-empty. Floats are read as reals (the non-finite ones are left out).
\<close>

datatype pyval = PNone | PBool bool | PInt int | PFloat real | PStr string | PContainer bool

type_synonym pydict = "(string \<times> pyval) list"

text \<open>The exceptions of the handlers, each with the text \<open>str(e)\<close> gives (abbreviated).\<close>

datatype pyexc = ValueError string | TypeError string | AttributeError string
  | KeyError string | RuntimeFault string

fun exc_text :: "pyexc \<Rightarrow> string" where
  "exc_text (ValueError m) = m"
| "exc_text (TypeError m) = m"
| "exc_text (AttributeError m) = m"
| "exc_text (KeyError m) = m"
| "exc_text (RuntimeFault m) = m"

fun py_truthy :: "pyval \<Rightarrow> bool" where
  "py_truthy PNone = False"
| "py_truthy (PBool b) = b"
| "py_truthy (PInt n) = (n \<noteq> 0)"
| "py_truthy (PFloat x) = (x \<noteq> 0)"
| "py_truthy (PStr s) = (s \<noteq> [])"
| "py_truthy (PContainer nonempty) = nonempty"

definition py_isspace :: "char \<Rightarrow> bool" where
  "py_isspace c \<longleftrightarrow>
     c \<in> set [CHR 0x09, CHR 0x0A, CHR 0x0B, CHR 0x0C, CHR 0x0D, CHR 0x1C, CHR 0x1D,
               CHR 0x1E, CHR 0x1F, CHR 0x20, CHR 0x85, CHR 0xA0]"

definition py_strip :: "string \<Rightarrow> string" where
  "py_strip s = rev (dropWhile py_isspace (rev (dropWhile py_isspace s)))"

definition is_digit :: "char \<Rightarrow> bool" where
  "is_digit c \<longleftrightarrow> c \<in> set ''0123456789''"

definition digit_val :: "char \<Rightarrow> nat" where
  "digit_val c = of_char c - 48"

text \<open>
  The digits of an integer literal as \<open>int()\<close> reads them: decimal digits, with single
  underscores allowed between two digits.
\<close>

fun parse_digits :: "string \<Rightarrow> nat \<Rightarrow> bool \<Rightarrow> nat option" where
  "parse_digits [] acc after_digit = (if after_digit then Some acc else None)"
| "parse_digits (c # cs) acc after_digit =
     (if is_digit c then parse_digits cs (10 * acc + digit_val c) True
      else if c = CHR ''_'' \<and> after_digit then parse_digits cs acc False
      else None)"

definition int_of_string :: "string \<Rightarrow> int option" where
  "int_of_string s =
     (case py_strip s of
        [] \<Rightarrow> None
      | c # cs \<Rightarrow>
          if c = CHR ''-'' then map_option (\<lambda>n. - int n) (parse_digits cs 0 False)
          else if c = CHR ''+'' then map_option int (parse_digits cs 0 False)
          else map_option int (parse_digits (c # cs) 0 False))"

fun py_int :: "pyval \<Rightarrow> pyexc + int" where
  "py_int (PInt n) = Inr n"
| "py_int (PBool b) = Inr (if b then 1 else 0)"
| "py_int (PFloat x) = Inr (if x \<ge> 0 then \<lfloor>x\<rfloor> else \<lceil>x\<rceil>)"
| "py_int (PStr s) =
     (case int_of_string s of
        Some n \<Rightarrow> Inr n
      | None \<Rightarrow> Inl (ValueError (''invalid literal for int() with base 10: '' @ s)))"
| "py_int PNone = Inl (TypeError ''int() argument must be a string or a real number'')"
| "py_int (PContainer nonempty) = Inl (TypeError ''int() argument must be a string or a real number'')"

function show_nat :: "nat \<Rightarrow> string" where
  "show_nat n =
     (if n < 10 then [''0123456789'' ! n] else show_nat (n div 10) @ [''0123456789'' ! (n mod 10)])"
  by pat_completeness auto
termination
  by (relation "measure (\<lambda>n. n)") auto

declare show_nat.simps [simp del]

definition zero_pad :: "nat \<Rightarrow> nat \<Rightarrow> string" where
  "zero_pad width n = replicate (width - length (show_nat n)) (CHR ''0'') @ show_nat n"

subsection \<open>Paths (posixpath)\<close>

definition os_path_join :: "string \<Rightarrow> string \<Rightarrow> string" where
  "os_path_join a b =
     (if b \<noteq> [] \<and> hd b = CHR ''/'' then b
      else if a = [] \<or> last a = CHR ''/'' then a @ b
      else a @ ''/'' @ b)"

fun split_sep :: "string \<Rightarrow> string list" where
  "split_sep [] = [[]]"
| "split_sep (c # cs) =
     (if c = CHR ''/'' then [] # split_sep cs
      else (case split_sep cs of
              w # ws \<Rightarrow> (c # w) # ws
            | [] \<Rightarrow> [[c]]))"

fun join_sep :: "string list \<Rightarrow> string" where
  "join_sep [] = []"
| "join_sep [w] = w"
| "join_sep (w # v # ws) = w @ ''/'' @ join_sep (v # ws)"

text \<open>The loop of \<open>normpath\<close> over the components, \<open>new_comps\<close> as the accumulator.\<close>

fun norm_comps :: "bool \<Rightarrow> string list \<Rightarrow> string list \<Rightarrow> string list" where
  "norm_comps initial_slashes [] new_comps = new_comps"
| "norm_comps initial_slashes (seg # comps) new_comps =
     (if seg = [] \<or> seg = ''.'' then norm_comps initial_slashes comps new_comps
      else if seg \<noteq> ''..'' \<or> (\<not> initial_slashes \<and> new_comps = [])
              \<or> (new_comps \<noteq> [] \<and> last new_comps = ''..'')
        then norm_comps initial_slashes comps (new_comps @ [seg])
      else if new_comps \<noteq> [] then norm_comps initial_slashes comps (butlast new_comps)
      else norm_comps initial_slashes comps new_comps)"

definition os_path_normpath :: "string \<Rightarrow> string" where
  "os_path_normpath path =
     (if path = [] then ''.''
      else
        let initial_slashes =
              (if take 1 path \<noteq> ''/'' then 0
               else if take 2 path = ''//'' \<and> take 3 path \<noteq> ''///'' then 2 else (1::nat));
            comps = norm_comps (initial_slashes > 0) (split_sep path) [];
            joined = replicate initial_slashes (CHR ''/'') @ join_sep comps
        in if joined = [] then ''.'' else joined)"

fun common_prefix_len :: "string list \<Rightarrow> string list \<Rightarrow> nat" where
  "common_prefix_len (x # xs) (y # ys) = (if x = y then Suc (common_prefix_len xs ys) else 0)"
| "common_prefix_len xs ys = 0"

definition path_parts :: "string \<Rightarrow> string list" where
  "path_parts p =
     (let tail = dropWhile (\<lambda>c. c = CHR ''/'') (os_path_normpath p)
      in if tail = [] then [] else split_sep tail)"

text \<open>
  \<open>os.path.relpath\<close> for absolute arguments (every call passes paths built on the
  absolute \<open>UPLOAD_FOLDER\<close>, so \<open>abspath\<close> is \<open>normpath\<close>).
\<close>

definition os_path_relpath :: "string \<Rightarrow> string \<Rightarrow> pyexc + string" where
  "os_path_relpath path start =
     (if path = [] then Inl (ValueError ''no path specified'')
      else
        let start_list = path_parts start;
            path_list = path_parts path;
            i = common_prefix_len start_list path_list;
            rel_list = replicate (length start_list - i) ''..'' @ drop i path_list
        in if rel_list = [] then Inr ''.'' else Inr (join_sep rel_list))"

section \<open>Request validation\<close>

text \<open>
  Both validators catch \<open>ValueError\<close> and \<open>TypeError\<close> and answer with the exception's
  text; any other exception leaves the validator.
\<close>

fun invalid_format :: "pyexc \<Rightarrow> pyexc + bool \<times> string" where
  "invalid_format (ValueError m) = Inr (False, ''Invalid input format: '' @ m)"
| "invalid_format (TypeError m) = Inr (False, ''Invalid input format: '' @ m)"
| "invalid_format e = Inl e"

text \<open>
  \<open>data.get('prompt', '').strip()\<close>: only a string has \<open>strip\<close>; on any other value
  the call raises \<open>AttributeError\<close>.
\<close>

definition get_prompt :: "pydict \<Rightarrow> pyexc + string" where
  "get_prompt data =
     (case lookup_default (PStr []) data ''prompt'' of
        PStr p \<Rightarrow> Inr (py_strip p)
      | _ \<Rightarrow> Inl (AttributeError ''object has no attribute strip''))"

text \<open>The public tier's \<open>validate_request_data\<close> (app.py).\<close>

definition validate_request_data :: "pydict \<Rightarrow> pyexc + bool \<times> string" where
  "validate_request_data data =
     (case get_prompt data of
        Inl e \<Rightarrow> invalid_format e
      | Inr prompt \<Rightarrow>
          if prompt = [] then Inr (False, ''Prompt is required'')
          else if length prompt > 200 then Inr (False, ''Prompt too long'')
          else
            (case py_int (lookup_default (PInt 512) data ''height'') of
              Inl e \<Rightarrow> invalid_format e
            | Inr height \<Rightarrow>
                (case py_int (lookup_default (PInt 512) data ''width'') of
                  Inl e \<Rightarrow> invalid_format e
                | Inr width \<Rightarrow>
                    if \<not> (64 \<le> height \<and> height \<le> 1024 \<and> 64 \<le> width \<and> width \<le> 1024)
                    then Inr (False, ''Invalid dimensions'')
                    else
                      (case py_int (lookup_default (PInt 50) data ''num_inference_steps'') of
                        Inl e \<Rightarrow> invalid_format e
                      | Inr steps \<Rightarrow>
                          if \<not> (1 \<le> steps \<and> steps \<le> 100)
                          then Inr (False, ''Invalid number of steps'')
                          else Inr (True, [])))))"

text \<open>
  The internal tier's constants and \<open>validate_input\<close> (ai\_service.py).
  \<open>ALLOWED_CHARS\<close> is \<open>^[a-zA-Z0-9\s\-_.,!?()]+$\<close>: every character of the class also
  covers the newline that \<open>$\<close> tolerates at the end, so the match succeeds exactly on
  the non-empty strings of allowed characters.
\<close>

definition MAX_PROMPT_LENGTH :: nat where
  "MAX_PROMPT_LENGTH = 200"

definition MAX_DIMENSION :: int where
  "MAX_DIMENSION = 1024"

definition MIN_DIMENSION :: int where
  "MIN_DIMENSION = 64"

definition MAX_STEPS :: int where
  "MAX_STEPS = 100"

definition MIN_STEPS :: int where
  "MIN_STEPS = 1"

definition allowed_char :: "char \<Rightarrow> bool" where
  "allowed_char c \<longleftrightarrow>
     c \<in> set ''abcdefghijklmnopqrstuvwxyzABCDEFGHIJKLMNOPQRSTUVWXYZ0123456789-_.,!?()''
     \<or> py_isspace c"

definition ALLOWED_CHARS_match :: "string \<Rightarrow> bool" where
  "ALLOWED_CHARS_match prompt \<longleftrightarrow> prompt \<noteq> [] \<and> list_all allowed_char prompt"

definition is_lower_hex :: "char \<Rightarrow> bool" where
  "is_lower_hex c \<longleftrightarrow> c \<in> set ''0123456789abcdef''"

text \<open>
  The user id pattern \<open>^[0-9a-f]{8}-[0-9a-f]{4}-[0-9a-f]{4}-[0-9a-f]{4}-[0-9a-f]{12}$\<close>:
  groups of lower-case hexadecimal digits separated by hyphens; \<open>$\<close> also matches
  before one final newline.
\<close>

fun match_groups :: "nat list \<Rightarrow> string \<Rightarrow> string option" where
  "match_groups [] s = Some s"
| "match_groups [n] s =
     (if n \<le> length s \<and> list_all is_lower_hex (take n s) then Some (drop n s) else None)"
| "match_groups (n # m # ns) s =
     (if n < length s \<and> list_all is_lower_hex (take n s) \<and> s ! n = CHR ''-''
      then match_groups (m # ns) (drop (Suc n) s) else None)"

definition user_id_match :: "string \<Rightarrow> bool" where
  "user_id_match s \<longleftrightarrow>
     (case match_groups [8, 4, 4, 4, 12] s of
        Some rest \<Rightarrow> rest = [] \<or> rest = [CHR 0x0A]
      | None \<Rightarrow> False)"

definition check_user_id :: "pydict \<Rightarrow> pyexc + bool \<times> string" where
  "check_user_id data =
     (case lookup_default PNone data ''user_id'' of
        PStr u \<Rightarrow>
          if u = [] then Inr (False, ''User ID is required'')
          else if \<not> user_id_match u then Inr (False, ''Invalid user ID format'')
          else Inr (True, [])
      | v \<Rightarrow>
          if \<not> py_truthy v then Inr (False, ''User ID is required'')
          else invalid_format (TypeError ''expected string or bytes-like object''))"

definition check_seed :: "pydict \<Rightarrow> pyexc + bool \<times> string" where
  "check_seed data =
     (case lookup_default PNone data ''seed'' of
        PNone \<Rightarrow> Inr (True, [])
      | v \<Rightarrow>
          (case py_int v of
             Inl (ValueError m) \<Rightarrow> Inr (False, ''Seed must be a valid integer'')
           | Inl e \<Rightarrow> invalid_format e
           | Inr seed \<Rightarrow>
               if \<not> (0 \<le> seed \<and> seed \<le> 2 ^ 32 - 1) then Inr (False, ''Invalid seed value'')
               else Inr (True, [])))"

definition validate_input :: "pydict \<Rightarrow> pyexc + bool \<times> string" where
  "validate_input data =
     (case get_prompt data of
        Inl e \<Rightarrow> invalid_format e
      | Inr prompt \<Rightarrow>
          if prompt = [] then Inr (False, ''Prompt is required'')
          else if length prompt > MAX_PROMPT_LENGTH
            then Inr (False, ''Prompt too long (max 200 characters)'')
          else if \<not> ALLOWED_CHARS_match prompt
            then Inr (False, ''Prompt contains invalid characters'')
          else
            (case py_int (lookup_default (PInt 512) data ''height'') of
              Inl e \<Rightarrow> invalid_format e
            | Inr height \<Rightarrow>
                (case py_int (lookup_default (PInt 512) data ''width'') of
                  Inl e \<Rightarrow> invalid_format e
                | Inr width \<Rightarrow>
                    if \<not> (MIN_DIMENSION \<le> height \<and> height \<le> MAX_DIMENSION
                           \<and> MIN_DIMENSION \<le> width \<and> width \<le> MAX_DIMENSION)
                    then Inr (False, ''Dimensions must be between 64 and 1024'')
                    else
                      (case py_int (lookup_default (PInt 50) data ''num_inference_steps'') of
                        Inl e \<Rightarrow> invalid_format e
                      | Inr steps \<Rightarrow>
                          if \<not> (MIN_STEPS \<le> steps \<and> steps \<le> MAX_STEPS)
                          then Inr (False, ''Steps must be between 1 and 100'')
                          else
                            (case check_user_id data of
                               Inr (True, m) \<Rightarrow> check_seed data
                             | r \<Rightarrow> r)))))"

section \<open>The internal tier (ai\_service.py)\<close>

text \<open>
  The configuration both processes read from the environment: the shared secret
  \<open>AI_SERVICE_AUTH_TOKEN\<close> (start-up fails when it is empty) and the absolute path
  \<open>UPLOAD_FOLDER\<close> of the output directory.
\<close>

record config =
  auth_token :: string
  upload_folder :: string

datatype image = Image nat

datatype job_status = Processing | Completed | Failed

text \<open>
  An entry of \<open>jobs\<close>. The result of a completed job is the triple of its job id, its
  \<open>image_path\<close> and the seed.
\<close>

record job =
  status :: job_status
  started_at :: real
  job_data :: pydict
  job_result :: "(string \<times> string \<times> pyval) option"
  job_error :: "string option"

text \<open>
  The state of the internal tier: \<open>jobs\<close>, \<open>file_mapping\<close>, the background threads
  that were started and have not run yet, and the files on disk.
\<close>

record service =
  jobs :: "(string \<times> job) list"
  file_mapping :: "(string \<times> string) list"
  threads :: "(string \<times> pydict) list"
  files :: "string \<Rightarrow> image option"

definition init_service :: service where
  "init_service = \<lparr>jobs = [], file_mapping = [], threads = [], files = (\<lambda>p. None)\<rparr>"

text \<open>The bodies of the HTTP responses; a response is a status code and a body.\<close>

datatype body =
    JFail string
  | JErr string
  | JAccepted string
  | JStatus job_status real "(string \<times> string \<times> pyval) option" "string option"
  | FileBody image
  | RouteMiss

type_synonym response = "nat \<times> body"

text \<open>\<open>require_auth_token\<close>: the header's token, or the query's when the header has none.\<close>

definition authorized :: "config \<Rightarrow> string option \<Rightarrow> string option \<Rightarrow> bool" where
  "authorized cfg auth_header auth_query =
     (let token = (case auth_header of
                     None \<Rightarrow> auth_query
                   | Some h \<Rightarrow> if h = [] then auth_query else Some h)
      in case token of
           None \<Rightarrow> False
         | Some t \<Rightarrow> t \<noteq> [] \<and> t = auth_token cfg)"

text \<open>
  \<open>generate\<close>: \<open>job_id\<close> is the value \<open>uuid.uuid4()\<close> returns and \<open>now\<close> the clock
  reading. The thread is started and left to run on its own; the handler returns.
\<close>

definition generate ::
  "config \<Rightarrow> service \<Rightarrow> string option \<Rightarrow> string option \<Rightarrow> pydict \<Rightarrow> string \<Rightarrow> real
     \<Rightarrow> service \<times> response" where
  "generate cfg svc auth_header auth_query data job_id now =
     (if \<not> authorized cfg auth_header auth_query then (svc, 401, JErr ''Unauthorized'')
      else if data = [] \<or> map_of data ''prompt'' = None \<or> map_of data ''user_id'' = None
        then (svc, 400, JErr ''Missing required fields'')
      else
        case validate_input data of
          Inl e \<Rightarrow> (svc, 500, JErr (exc_text e))
        | Inr (is_valid, error_message) \<Rightarrow>
            if \<not> is_valid then (svc, 400, JErr error_message)
            else
              (svc\<lparr>jobs := AList.update job_id
                         \<lparr>status = Processing, started_at = now, job_data = data,
                          job_result = None, job_error = None\<rparr> (jobs svc),
                    threads := threads svc @ [(job_id, data)]\<rparr>,
               200, JAccepted job_id))"

subsection \<open>The worker: utils/image\_utils.py\<close>

record datetime =
  dt_year :: nat
  dt_month :: nat
  dt_day :: nat
  dt_hour :: nat
  dt_minute :: nat
  dt_second :: nat

text \<open>\<open>strftime("%Y%m%d-%H%M%S")\<close>, for a year of four digits.\<close>

definition strftime :: "datetime \<Rightarrow> string" where
  "strftime d =
     zero_pad 4 (dt_year d) @ zero_pad 2 (dt_month d) @ zero_pad 2 (dt_day d) @ ''-''
     @ zero_pad 2 (dt_hour d) @ zero_pad 2 (dt_minute d) @ zero_pad 2 (dt_second d)"

text \<open>
  \<open>re.sub(r'[<>:"/\\|?*(){}]', '', prompt[:10]).replace(' ', '_')\<close> and the file name
  built from it and a clock reading.
\<close>

definition removed_char :: "char \<Rightarrow> bool" where
  "removed_char c \<longleftrightarrow> c \<in> set (''<>:/|?*(){}'' @ [CHR 0x22, CHR 0x5C])"

definition sanitized_prompt :: "string \<Rightarrow> string" where
  "sanitized_prompt prompt =
     map (\<lambda>c. if c = CHR '' '' then CHR ''_'' else c)
       (filter (\<lambda>c. \<not> removed_char c) (take 10 prompt))"

definition filename :: "string \<Rightarrow> datetime \<Rightarrow> string" where
  "filename prompt now = sanitized_prompt prompt @ ''-'' @ strftime now @ ''.png''"

text \<open>
  What the environment decides in one run of the worker: whether the pipeline is
  available, whether the user's directory can be made, what \<open>generate_image\<close> gives (a
  fault, or an image and the seed it draws when none is given), whether the image can be
  saved, and the two readings of \<open>datetime.now()\<close> (in \<open>save_image\<close> and then in
  \<open>process_image\<close>).
\<close>

record worker_env =
  pipeline_fault :: "string option"
  mkdir_fault :: "string option"
  generated :: "string + image \<times> int"
  save_fault :: "string option"
  save_clock :: datetime
  path_clock :: datetime

definition process_image ::
  "worker_env \<Rightarrow> (string \<Rightarrow> image option) \<Rightarrow> pyval \<Rightarrow> pyval \<Rightarrow> string
     \<Rightarrow> (string \<Rightarrow> image option) \<times> (pyexc + string \<times> pyval)" where
  "process_image env fs prompt seed output_dir =
     (case generated env of
        Inl m \<Rightarrow> (fs, Inl (RuntimeFault m))
      | Inr (generated_image, drawn) \<Rightarrow>
          let seed1 = (if seed = PNone then PInt drawn else seed) in
          (case prompt of
             PStr p \<Rightarrow>
               (case save_fault env of
                  Some m \<Rightarrow> (fs, Inl (RuntimeFault m))
                | None \<Rightarrow>
                    let full_path = os_path_join output_dir (filename p (save_clock env));
                        fs1 = fs(full_path := Some generated_image);
                        image_path = os_path_join output_dir (filename p (path_clock env))
                    in (fs1, Inr (image_path, seed1)))
           | _ \<Rightarrow> (fs, Inl (TypeError ''prompt is not a string''))))"

subsection \<open>\<open>process_job\<close>\<close>

definition ensure_user_directory :: "config \<Rightarrow> worker_env \<Rightarrow> pyval \<Rightarrow> pyexc + string" where
  "ensure_user_directory cfg env user_id =
     (case user_id of
        PStr u \<Rightarrow>
          (case mkdir_fault env of
             Some m \<Rightarrow> Inl (RuntimeFault m)
           | None \<Rightarrow> Inr (os_path_join (upload_folder cfg) u))
      | _ \<Rightarrow> Inl (TypeError ''expected str, bytes or os.PathLike object''))"

definition set_completed :: "(string \<times> job) list \<Rightarrow> string \<Rightarrow> pyval \<Rightarrow> (string \<times> job) list option" where
  "set_completed js job_id seed =
     (case map_of js job_id of
        None \<Rightarrow> None
      | Some j \<Rightarrow>
          Some (AList.update job_id
            (j\<lparr>status := Completed,
               job_result := Some (job_id, ''/output/'' @ job_id, seed)\<rparr>) js))"

definition set_failed :: "(string \<times> job) list \<Rightarrow> string \<Rightarrow> string \<Rightarrow> (string \<times> job) list" where
  "set_failed js job_id msg =
     (case map_of js job_id of
        None \<Rightarrow> js
      | Some j \<Rightarrow> AList.update job_id (j\<lparr>status := Failed, job_error := Some msg\<rparr>) js)"

text \<open>
  The \<open>try\<close> block of \<open>process_job\<close>: the state it leaves, and the exception when it
  raised one.
\<close>

definition process_job_try ::
  "config \<Rightarrow> service \<Rightarrow> string \<Rightarrow> pydict \<Rightarrow> worker_env \<Rightarrow> service \<times> pyexc option" where
  "process_job_try cfg svc job_id data env =
     (case pipeline_fault env of
        Some m \<Rightarrow> (svc, Some (RuntimeFault m))
      | None \<Rightarrow>
          (case map_of data ''prompt'' of
             None \<Rightarrow> (svc, Some (KeyError ''prompt''))
           | Some prompt \<Rightarrow>
               (case map_of data ''user_id'' of
                  None \<Rightarrow> (svc, Some (KeyError ''user_id''))
                | Some user_id \<Rightarrow>
                    (case ensure_user_directory cfg env user_id of
                       Inl e \<Rightarrow> (svc, Some e)
                     | Inr output_dir \<Rightarrow>
                         (case process_image env (files svc) prompt
                                 (lookup_default PNone data ''seed'') output_dir of
                            (fs1, Inl e) \<Rightarrow> (svc\<lparr>files := fs1\<rparr>, Some e)
                          | (fs1, Inr (image_path, seed)) \<Rightarrow>
                              (case os_path_relpath image_path (upload_folder cfg) of
                                 Inl e \<Rightarrow> (svc\<lparr>files := fs1\<rparr>, Some e)
                               | Inr relative_path \<Rightarrow>
                                   let svc1 = svc\<lparr>files := fs1,
                                         file_mapping :=
                                           AList.update job_id relative_path (file_mapping svc)\<rparr>
                                   in (case set_completed (jobs svc1) job_id seed of
                                         None \<Rightarrow> (svc1, Some (KeyError job_id))
                                       | Some js \<Rightarrow> (svc1\<lparr>jobs := js\<rparr>, None))))))))"

definition process_job :: "config \<Rightarrow> service \<Rightarrow> string \<Rightarrow> pydict \<Rightarrow> worker_env \<Rightarrow> service" where
  "process_job cfg svc job_id data env =
     (case process_job_try cfg svc job_id data env of
        (svc1, None) \<Rightarrow> svc1
      | (svc1, Some e) \<Rightarrow> svc1\<lparr>jobs := set_failed (jobs svc1) job_id (exc_text e)\<rparr>)"

subsection \<open>Reading the state: \<open>get_job_status\<close> and \<open>serve_image\<close>\<close>

definition get_job_status ::
  "config \<Rightarrow> service \<Rightarrow> string option \<Rightarrow> string option \<Rightarrow> string \<Rightarrow> response" where
  "get_job_status cfg svc auth_header auth_query job_id =
     (if \<not> authorized cfg auth_header auth_query then (401, JErr ''Unauthorized'')
      else
        case map_of (jobs svc) job_id of
          None \<Rightarrow> (404, JErr ''Job not found'')
        | Some j \<Rightarrow>
            (case status j of
               Processing \<Rightarrow> (200, JStatus Processing (started_at j) None None)
             | Completed \<Rightarrow>
                 (case job_result j of
                    None \<Rightarrow> (500, JErr ''result'')
                  | Some r \<Rightarrow> (200, JStatus Completed (started_at j) (Some r) None))
             | Failed \<Rightarrow>
                 (case job_error j of
                    None \<Rightarrow> (500, JErr ''error'')
                  | Some m \<Rightarrow> (200, JStatus Failed (started_at j) None (Some m)))))"

text \<open>
  The route \<open>/output/<uuid:file_id>\<close>: the converter accepts one path segment of
  hexadecimal groups (either case) and \<open>str(file_id)\<close> is its lower-case form; any
  other path is answered by the router with 404.
\<close>

definition is_hex :: "char \<Rightarrow> bool" where
  "is_hex c \<longleftrightarrow> c \<in> set ''0123456789abcdefABCDEF''"

fun hex_groups :: "nat list \<Rightarrow> string \<Rightarrow> bool" where
  "hex_groups [] s = (s = [])"
| "hex_groups [n] s = (length s = n \<and> list_all is_hex s)"
| "hex_groups (n # m # ns) s =
     (n < length s \<and> list_all is_hex (take n s) \<and> s ! n = CHR ''-''
      \<and> hex_groups (m # ns) (drop (Suc n) s))"

definition lower_char :: "char \<Rightarrow> char" where
  "lower_char c = (case map_of (zip ''ABCDEF'' ''abcdef'') c of Some l \<Rightarrow> l | None \<Rightarrow> c)"

definition uuid_route :: "string \<Rightarrow> string option" where
  "uuid_route raw = (if hex_groups [8, 4, 4, 4, 12] raw then Some (map lower_char raw) else None)"

text \<open>
  \<open>send_from_directory\<close> joins the directory and the normalised path with
  \<open>safe_join\<close>, which refuses a path that is absolute or leaves the directory.
\<close>

definition safe_join :: "string \<Rightarrow> string \<Rightarrow> string option" where
  "safe_join directory path =
     (let name = (if path = [] then path else os_path_normpath path)
      in if take 1 name = ''/'' \<or> name = ''..'' \<or> take 3 name = ''../'' then None
         else Some (os_path_join directory name))"

definition serve_image ::
  "config \<Rightarrow> service \<Rightarrow> string option \<Rightarrow> string option \<Rightarrow> string \<Rightarrow> response" where
  "serve_image cfg svc auth_header auth_query raw_id =
     (case uuid_route raw_id of
        None \<Rightarrow> (404, RouteMiss)
      | Some file_id \<Rightarrow>
          if \<not> authorized cfg auth_header auth_query then (401, JErr ''Unauthorized'')
          else
            (case map_of (file_mapping svc) file_id of
               None \<Rightarrow> (404, JErr ''Image not found'')
             | Some actual_path \<Rightarrow>
                 let full_path = os_path_join (upload_folder cfg) actual_path in
                 if files svc full_path = None then (404, JErr ''Image not found'')
                 else
                   (case safe_join (upload_folder cfg) actual_path of
                      None \<Rightarrow> (404, JErr ''Image not found'')
                    | Some p \<Rightarrow>
                        (case files svc p of
                           None \<Rightarrow> (404, JErr ''Image not found'')
                         | Some img \<Rightarrow> (200, FileBody img)))))"

section \<open>The public tier's \<open>generate_image\<close> (app.py)\<close>

text \<open>
  What the network does with the forwarded request: it is delivered and answered, the
  connection times out before the internal tier sees it, the internal tier handles it
  but its answer comes too late, or another transport error (with its text) occurs.
\<close>

datatype net = Delivered | TimedOut | ReplyLost | Unreachable string

definition http_reason :: "nat \<Rightarrow> string" where
  "http_reason code =
     (if code = 400 then ''BAD REQUEST''
      else if code = 401 then ''UNAUTHORIZED''
      else if code = 500 then ''INTERNAL SERVER ERROR''
      else [])"

text \<open>The text of the \<open>HTTPError\<close> that \<open>raise_for_status\<close> raises.\<close>

definition http_error_text :: "nat \<Rightarrow> string" where
  "http_error_text code =
     show_nat code @ (if code < 500 then '' Client Error: '' else '' Server Error: '')
     @ http_reason code @ '' for url: http://localhost:5001/generate''"

text \<open>
  The inner \<open>try\<close> block of \<open>generate_image\<close>, with the response the handler gives for
  each way the block ends (its \<open>return\<close>s and the outer \<open>except\<close> clauses).
\<close>

definition dispatch ::
  "config \<Rightarrow> service \<Rightarrow> string \<Rightarrow> pydict \<Rightarrow> net \<Rightarrow> string \<Rightarrow> real \<Rightarrow> service \<times> response" where
  "dispatch cfg svc user_id data network job_id svc_now =
     (case validate_request_data data of
        Inl e \<Rightarrow> (svc, 500, JFail (exc_text e))
      | Inr (is_valid, error_message) \<Rightarrow>
          if \<not> is_valid then (svc, 400, JFail error_message)
          else
            let data1 = AList.update ''user_id'' (PStr user_id) data;
                answer = generate cfg svc (Some (auth_token cfg)) None data1 job_id svc_now
            in (case network of
                  TimedOut \<Rightarrow> (svc, 504, JFail ''Request timed out'')
                | ReplyLost \<Rightarrow> (fst answer, 504, JFail ''Request timed out'')
                | Unreachable m \<Rightarrow>
                    (svc, 500, JFail (''Error communicating with AI service: '' @ m))
                | Delivered \<Rightarrow>
                    (case answer of
                       (svc1, code, result) \<Rightarrow>
                         if code \<ge> 400
                         then (svc1, 500, JFail (''Error communicating with AI service: ''
                                                  @ http_error_text code))
                         else
                           (case result of
                              JAccepted j \<Rightarrow> (svc1, 200, JAccepted j)
                            | JErr m \<Rightarrow> (svc1, 500, JFail m)
                            | _ \<Rightarrow> (svc1, 500, JFail ''Unknown error'')))))"

record system =
  public_tier :: limiter
  internal_tier :: service

definition init_system :: "real \<Rightarrow> system" where
  "init_system t_start = \<lparr>public_tier = init_limiter t_start, internal_tier = init_service\<rparr>"

definition generate_image ::
  "config \<Rightarrow> system \<Rightarrow> string option \<Rightarrow> pydict \<Rightarrow> real \<Rightarrow> real \<Rightarrow> net \<Rightarrow> string \<Rightarrow> real
     \<Rightarrow> system \<times> response" where
  "generate_image cfg sys session_user request_json cleanup_time current_time network job_id svc_now =
     (case session_user of
        None \<Rightarrow> (sys, 401, JFail ''No user session found'')
      | Some user_id \<Rightarrow>
          (case check_rate_limit (public_tier sys) session_user cleanup_time current_time of
             (lim1, can_proceed, rate_limit_error) \<Rightarrow>
               if \<not> can_proceed then (sys\<lparr>public_tier := lim1\<rparr>, 429, JFail rate_limit_error)
               else if request_json = []
                 then (sys\<lparr>public_tier := lim1\<rparr>, 400, JFail ''No data provided'')
               else
                 (case dispatch cfg (internal_tier sys) user_id request_json network job_id svc_now of
                    (svc1, resp) \<Rightarrow>
                      (\<lparr>public_tier = rate_limit_complete lim1 user_id, internal_tier = svc1\<rparr>,
                       resp))))"

subsection \<open>Jobs of a user\<close>

definition owner :: "job \<Rightarrow> pyval" where
  "owner j = lookup_default PNone (job_data j) ''user_id''"

definition processing_jobs_of :: "service \<Rightarrow> string \<Rightarrow> nat" where
  "processing_jobs_of svc user_id =
     length (filter (\<lambda>p. status (snd p) = Processing \<and> owner (snd p) = PStr user_id) (jobs svc))"

section \<open>Steps of the internal tier\<close>

text \<open>
  The internal tier moves when a request to \<open>/generate\<close> is handled (\<open>uuid.uuid4()\<close>
  gives an identifier no job has) and when a started thread runs \<open>process_job\<close>. Reads
  (\<open>get_job_status\<close>, \<open>serve_image\<close>) leave the state as it is.
\<close>

inductive svc_step :: "config \<Rightarrow> service \<Rightarrow> service \<Rightarrow> bool" for cfg :: config where
  submit: "map_of (jobs s) job_id = None \<Longrightarrow>
     svc_step cfg s (fst (generate cfg s auth_header auth_query data job_id now))"
| work: "(job_id, data) \<in> set (threads s) \<Longrightarrow>
     svc_step cfg s
       (process_job cfg (s\<lparr>threads := remove1 (job_id, data) (threads s)\<rparr>) job_id data env)"

inductive svc_reachable :: "config \<Rightarrow> service \<Rightarrow> bool" for cfg :: config where
  start: "svc_reachable cfg init_service"
| step: "svc_reachable cfg s \<Longrightarrow> svc_step cfg s s' \<Longrightarrow> svc_reachable cfg s'"

section \<open>Steps of the whole system\<close>

text \<open>
  The system moves when the public tier handles a \<open>POST /generate\<close> (a handler runs
  from its first line to its \<open>return\<close>), and when the internal tier moves on its own:
  a worker thread runs, or a client that holds the token calls the internal tier
  directly.
\<close>

inductive sys_step :: "config \<Rightarrow> system \<Rightarrow> system \<Rightarrow> bool" for cfg :: config where
  request: "map_of (jobs (internal_tier sys)) job_id = None \<Longrightarrow>
     sys_step cfg sys
       (fst (generate_image cfg sys session_user request_json t0 t1 network job_id svc_now))"
| internal: "svc_step cfg (internal_tier sys) svc1 \<Longrightarrow>
     sys_step cfg sys (sys\<lparr>internal_tier := svc1\<rparr>)"

inductive sys_reachable :: "config \<Rightarrow> system \<Rightarrow> bool" for cfg :: config where
  sys_start: "sys_reachable cfg (init_system t_start)"
| sys_next: "sys_reachable cfg sys \<Longrightarrow> sys_step cfg sys sys1 \<Longrightarrow> sys_reachable cfg sys1"

section \<open>Invariants and scenarios\<close>

text \<open>
  The invariant of the limiter along a run: the stored timestamps of every user are the
  admitted timestamps \<open>H\<close> of that user that are newer than the last cutoff \<open>K\<close> a
  cleanup applied.
\<close>

definition lim_inv :: "limiter \<Rightarrow> (string \<times> real) list \<Rightarrow> real \<Rightarrow> bool" where
  "lim_inv s H K \<longleftrightarrow>
     distinct (map fst (user_request_times s)) \<and>
     (\<forall>u. lookup_default [] (user_request_times s) u =
            map snd (filter (\<lambda>p. fst p = u \<and> K < snd p) H))"

definition window_bounded :: "(string \<times> real) list \<Rightarrow> bool" where
  "window_bounded H \<longleftrightarrow>
     (\<forall>u a. user_window_count H u a \<le> MAX_REQUESTS_PER_USER) \<and>
     (\<forall>a. global_window_count H a \<le> GLOBAL_RATE_LIMIT)"

text \<open>
  A run of the limiter started at time 0: user \<open>u\<close> is admitted at 1, 2 and 3 seconds
  (each slot released again) and asks once more at 60 seconds.
\<close>

definition stale_run :: "lim_event list" where
  "stale_run =
     [Check (Some ''u'') 1 1, Complete ''u'',
      Check (Some ''u'') 2 2, Complete ''u'',
      Check (Some ''u'') 3 3, Complete ''u'',
      Check (Some ''u'') 60 60]"

text \<open>A configuration, a user with a session, and request bodies.\<close>

definition cfg0 :: config where
  "cfg0 = \<lparr>auth_token = ''secret'', upload_folder = ''/srv/output''\<rparr>"

definition alice :: string where
  "alice = ''00000000-0000-0000-0000-000000000001''"

definition cat_request :: pydict where
  "cat_request = [(''prompt'', PStr ''a cat'')]"

definition long_request :: pydict where
  "long_request = [(''prompt'', PStr (replicate 500 (CHR ''a'')))]"

definition bad_chars_request :: pydict where
  "bad_chars_request = [(''prompt'', PStr ''a#b'')]"

text \<open>The limiter after one and after two requests of \<open>alice\<close> with the empty body \<open>{}\<close>.\<close>

definition leaked_once :: system where
  "leaked_once =
     \<lparr>public_tier = \<lparr>user_request_times = [(alice, [1])],
                      user_concurrent_jobs = [(alice, 1)], last_cleanup = 0\<rparr>,
      internal_tier = init_service\<rparr>"

definition leaked_twice :: system where
  "leaked_twice =
     \<lparr>public_tier = \<lparr>user_request_times = [(alice, [1, 2])],
                      user_concurrent_jobs = [(alice, 2)], last_cleanup = 0\<rparr>,
      internal_tier = init_service\<rparr>"

subsection \<open>The entry a new job gets\<close>

definition new_job :: "real \<Rightarrow> pydict \<Rightarrow> job" where
  "new_job now data =
     \<lparr>status = Processing, started_at = now, job_data = data, job_result = None, job_error = None\<rparr>"

subsection \<open>Invariants of the internal tier\<close>

text \<open>
  Every started thread that has not run belongs to a job that is still processing, no
  two of them belong to the same job, and a finished job carries its result or its
  error.
\<close>

definition svc_inv :: "service \<Rightarrow> bool" where
  "svc_inv s \<longleftrightarrow>
     distinct (map fst (threads s)) \<and>
     (\<forall>p \<in> set (threads s). \<exists>j. map_of (jobs s) (fst p) = Some j \<and> status j = Processing) \<and>
     (\<forall>k j. map_of (jobs s) k = Some j \<longrightarrow>
        (status j = Completed \<longrightarrow> job_result j \<noteq> None) \<and>
        (status j = Failed \<longrightarrow> job_error j \<noteq> None))"

text \<open>
  A path segment that is a plain name; an absolute path in normal form (what
  \<open>UPLOAD_FOLDER\<close> is); and a stored artifact path of the form \<open>user/file\<close>, two plain
  names, the only form \<open>process_job\<close> stores.
\<close>

definition clean_segment :: "string \<Rightarrow> bool" where
  "clean_segment seg \<longleftrightarrow> seg \<noteq> [] \<and> CHR ''/'' \<notin> set seg \<and> seg \<noteq> ''.'' \<and> seg \<noteq> ''..''"

definition abs_normal :: "string \<Rightarrow> bool" where
  "abs_normal r \<longleftrightarrow>
     (case r of
        [] \<Rightarrow> False
      | c # rest \<Rightarrow> c = CHR ''/'' \<and> list_all clean_segment (split_sep rest))"

definition stored_ok :: "string \<Rightarrow> bool" where
  "stored_ok p \<longleftrightarrow>
     (case split_sep p of
        [u, f] \<Rightarrow> clean_segment u \<and> clean_segment f
      | _ \<Rightarrow> False)"

definition hexdash :: "char \<Rightarrow> bool" where
  "hexdash c \<longleftrightarrow> is_lower_hex c \<or> c = CHR ''-''"

text \<open>
  The data of every started thread passed \<open>validate_input\<close>, and every stored artifact
  path has the form \<open>user/file\<close>.
\<close>

definition paths_inv :: "service \<Rightarrow> bool" where
  "paths_inv s \<longleftrightarrow>
     (\<forall>p \<in> set (threads s). validate_input (snd p) = Inr (True, [])) \<and>
     (\<forall>k p. map_of (file_mapping s) k = Some p \<longrightarrow> stored_ok p)"

subsection \<open>Scenarios of the internal tier\<close>

text \<open>Three job identifiers as \<open>uuid.uuid4()\<close> gives them, and the forwarded request.\<close>

definition job1 :: string where
  "job1 = ''10000000-0000-4000-8000-000000000001''"

definition job2 :: string where
  "job2 = ''10000000-0000-4000-8000-000000000002''"

definition job3 :: string where
  "job3 = ''10000000-0000-4000-8000-000000000003''"

definition alice_cat :: pydict where
  "alice_cat = [(''prompt'', PStr ''a cat''), (''user_id'', PStr alice)]"

text \<open>Two clock readings one second apart.\<close>

definition noon :: datetime where
  "noon = \<lparr>dt_year = 2025, dt_month = 3, dt_day = 9, dt_hour = 12, dt_minute = 0, dt_second = 0\<rparr>"

definition second_past_noon :: datetime where
  "second_past_noon = \<lparr>dt_year = 2025, dt_month = 3, dt_day = 9, dt_hour = 12, dt_minute = 0, dt_second = 1\<rparr>"

text \<open>
  Three runs of the worker: the generation faults; the generation succeeds and both
  clock readings fall into the same second; the generation succeeds and the second
  reading falls into the next second.
\<close>

definition env_fault :: worker_env where
  "env_fault =
     \<lparr>pipeline_fault = None, mkdir_fault = None, generated = Inl ''CUDA out of memory'',
      save_fault = None, save_clock = noon, path_clock = noon\<rparr>"

definition env_same :: worker_env where
  "env_same =
     \<lparr>pipeline_fault = None, mkdir_fault = None, generated = Inr (Image 7, 42),
      save_fault = None, save_clock = noon, path_clock = noon\<rparr>"

definition env_tick :: worker_env where
  "env_tick =
     \<lparr>pipeline_fault = None, mkdir_fault = None, generated = Inr (Image 7, 42),
      save_fault = None, save_clock = noon, path_clock = second_past_noon\<rparr>"

definition alice_dir :: string where
  "alice_dir = ''/srv/output/00000000-0000-0000-0000-000000000001''"

definition saved_name :: string where
  "saved_name = ''a_cat-20250309-120000.png''"

definition mapped_name :: string where
  "mapped_name = ''a_cat-20250309-120001.png''"

text \<open>
  The internal tier after the first request (\<open>one_job\<close>), and after the worker ran
  with each of the three environments.
\<close>

definition one_job :: service where
  "one_job =
     \<lparr>jobs = [(job1, new_job 1 alice_cat)], file_mapping = [],
      threads = [(job1, alice_cat)], files = (\<lambda>p. None)\<rparr>"

definition one_failed :: service where
  "one_failed =
     \<lparr>jobs = [(job1, (new_job 1 alice_cat)\<lparr>status := Failed, job_error := Some ''CUDA out of memory''\<rparr>)],
      file_mapping = [], threads = [], files = (\<lambda>p. None)\<rparr>"

definition failed_and_new :: service where
  "failed_and_new =
     \<lparr>jobs = [(job1, (new_job 1 alice_cat)\<lparr>status := Failed, job_error := Some ''CUDA out of memory''\<rparr>),
              (job2, new_job 2 alice_cat)],
      file_mapping = [], threads = [(job2, alice_cat)], files = (\<lambda>p. None)\<rparr>"

definition one_served :: service where
  "one_served =
     \<lparr>jobs = [(job1, (new_job 1 alice_cat)
                \<lparr>status := Completed, job_result := Some (job1, ''/output/'' @ job1, PInt 42)\<rparr>)],
      file_mapping = [(job1, alice @ ''/'' @ saved_name)],
      threads = [],
      files = (\<lambda>p. None)(alice_dir @ ''/'' @ saved_name := Some (Image 7))\<rparr>"

definition one_completed :: service where
  "one_completed =
     \<lparr>jobs = [(job1, (new_job 1 alice_cat)
                \<lparr>status := Completed, job_result := Some (job1, ''/output/'' @ job1, PInt 42)\<rparr>)],
      file_mapping = [(job1, alice @ ''/'' @ mapped_name)],
      threads = [],
      files = (\<lambda>p. None)(alice_dir @ ''/'' @ saved_name := Some (Image 7))\<rparr>"

text \<open>
  The system after one, two and three requests of \<open>alice\<close> through the public tier, at
  1, 2 and 3 seconds, with no worker having run.
\<close>

definition submitted_once :: system where
  "submitted_once =
     \<lparr>public_tier = \<lparr>user_request_times = [(alice, [1])],
                      user_concurrent_jobs = [(alice, 0)], last_cleanup = 0\<rparr>,
      internal_tier = \<lparr>jobs = [(job1, new_job 1 alice_cat)], file_mapping = [],
                        threads = [(job1, alice_cat)], files = (\<lambda>p. None)\<rparr>\<rparr>"

definition submitted_twice :: system where
  "submitted_twice =
     \<lparr>public_tier = \<lparr>user_request_times = [(alice, [1, 2])],
                      user_concurrent_jobs = [(alice, 0)], last_cleanup = 0\<rparr>,
      internal_tier = \<lparr>jobs = [(job1, new_job 1 alice_cat), (job2, new_job 2 alice_cat)],
                        file_mapping = [],
                        threads = [(job1, alice_cat), (job2, alice_cat)], files = (\<lambda>p. None)\<rparr>\<rparr>"

definition submitted_thrice :: system where
  "submitted_thrice =
     \<lparr>public_tier = \<lparr>user_request_times = [(alice, [1, 2, 3])],
                      user_concurrent_jobs = [(alice, 0)], last_cleanup = 0\<rparr>,
      internal_tier = \<lparr>jobs = [(job1, new_job 1 alice_cat), (job2, new_job 2 alice_cat),
                                (job3, new_job 3 alice_cat)],
                        file_mapping = [],
                        threads = [(job1, alice_cat), (job2, alice_cat), (job3, alice_cat)],
                        files = (\<lambda>p. None)\<rparr>\<rparr>"

section \<open>Properties of the rate limiter\<close>

subsection \<open>Evaluating \<open>show_nat\<close>\<close>

lemma show_nat_small: "n < 10 \<Longrightarrow> show_nat n = [''0123456789'' ! n]"
  by (subst show_nat.simps) simp

lemma show_nat_large:
  "\<not> n < 10 \<Longrightarrow> show_nat n = show_nat (n div 10) @ [''0123456789'' ! (n mod 10)]"
  by (subst show_nat.simps) simp

subsection \<open>Dictionaries and the cleanup loop\<close>

lemma dd_get_lookup: "snd (dd_get d k dflt) = lookup_default dflt d k"
  by (simp add: dd_get_def lookup_default_def split: option.splits)

lemma map_of_cleanup_loop:
  "map_of (cleanup_loop c ks d) u =
     (if u \<in> set ks then
        (case map_of d u of None \<Rightarrow> None
         | Some ts \<Rightarrow> if filter (\<lambda>t. t > c) ts = [] then None else Some (filter (\<lambda>t. t > c) ts))
      else map_of d u)"
proof (induction ks arbitrary: d)
  case Nil
  show ?case by simp
next
  case (Cons k ks)
  show ?case
    by (auto simp add: Cons.IH Let_def lookup_default_def update_conv' delete_conv'
        split: option.splits)
qed

lemma lookup_cleanup_loop:
  "lookup_default [] (cleanup_loop c (map fst d) d) u = filter (\<lambda>t. t > c) (lookup_default [] d u)"
proof (cases "u \<in> fst ` set d")
  case True
  then show ?thesis
    by (auto simp add: lookup_default_def map_of_cleanup_loop split: option.splits)
next
  case False
  then have "map_of d u = None" by (simp add: map_of_eq_None_iff)
  with False show ?thesis
    by (simp add: lookup_default_def map_of_cleanup_loop)
qed

lemma distinct_cleanup_loop:
  "distinct (map fst d) \<Longrightarrow> distinct (map fst (cleanup_loop c ks d))"
proof (induction ks arbitrary: d)
  case Nil
  then show ?case by simp
next
  case (Cons k ks)
  then show ?case
    by (simp add: Let_def distinct_update distinct_delete)
qed

subsection \<open>Counting the stored timestamps\<close>

lemma sum_list_indicator:
  "distinct ks \<Longrightarrow> x \<in> set ks \<Longrightarrow> sum_list (map (\<lambda>k. if x = k then 1 else 0) ks) = (1::nat)"
proof (induction ks)
  case Nil
  then show ?case by simp
next
  case (Cons k ks)
  show ?case
  proof (cases "x = k")
    case True
    with Cons.prems have "x \<notin> set ks" by simp
    then have "sum_list (map (\<lambda>k. if x = k then 1 else 0) ks) = (0::nat)"
      by (induction ks) auto
    with True show ?thesis by simp
  next
    case False
    with Cons show ?thesis by simp
  qed
qed

lemma count_by_key:
  "distinct ks \<Longrightarrow> fst ` set F \<subseteq> set ks \<Longrightarrow>
   sum_list (map (\<lambda>k. length (filter (\<lambda>p. fst p = k) F)) ks) = length F"
proof (induction F)
  case Nil
  then show ?case by simp
next
  case (Cons p F)
  have mem: "fst p \<in> set ks" using Cons.prems(2) by simp
  have "sum_list (map (\<lambda>k. length (filter (\<lambda>q. fst q = k) (p # F))) ks) =
        sum_list (map (\<lambda>k. (if fst p = k then 1 else 0) + length (filter (\<lambda>q. fst q = k) F)) ks)"
    by (rule arg_cong [where f = sum_list]) (rule map_cong, simp_all)
  also have "\<dots> = sum_list (map (\<lambda>k. if fst p = k then 1 else 0) ks) +
                  sum_list (map (\<lambda>k. length (filter (\<lambda>q. fst q = k) F)) ks)"
    by (simp add: sum_list_addf)
  also have "\<dots> = 1 + length F"
    using Cons sum_list_indicator [OF Cons.prems(1) mem] by simp
  finally show ?case by simp
qed

lemma total_of_lookup:
  assumes d: "distinct (map fst d)"
    and l: "\<And>u. lookup_default [] d u = map snd (filter (\<lambda>p. fst p = u \<and> Q p) H)"
  shows "sum_list (map (\<lambda>p. length (snd p)) d) = length (filter Q H)"
proof -
  have 1: "sum_list (map (\<lambda>p. length (snd p)) d) =
           sum_list (map (\<lambda>k. length (lookup_default [] d k)) (map fst d))"
    unfolding map_map comp_def
  proof (rule arg_cong [where f = sum_list], rule map_cong [OF refl])
    fix p assume "p \<in> set d"
    then have "map_of d (fst p) = Some (snd p)" using d by simp
    then show "length (snd p) = length (lookup_default [] d (fst p))"
      by (simp add: lookup_default_def)
  qed
  have sub: "fst ` set (filter Q H) \<subseteq> set (map fst d)"
  proof
    fix u assume "u \<in> fst ` set (filter Q H)"
    then obtain p where p: "p \<in> set H" "Q p" "fst p = u" by auto
    then have "p \<in> set (filter (\<lambda>p. fst p = u \<and> Q p) H)" by simp
    then have "lookup_default [] d u \<noteq> []" unfolding l by (metis empty_iff list.set(1) map_is_Nil_conv)
    then have "map_of d u \<noteq> None" by (auto simp: lookup_default_def split: option.splits)
    then show "u \<in> set (map fst d)" by (simp add: map_of_eq_None_iff)
  qed
  have 2: "\<And>k. length (lookup_default [] d k) = length (filter (\<lambda>p. fst p = k) (filter Q H))"
    unfolding l by (simp add: conj_commute)
  show ?thesis
    unfolding 1 2 using count_by_key [OF d sub] by simp
qed

lemma length_filter_mono:
  "(\<And>x. x \<in> set xs \<Longrightarrow> P x \<Longrightarrow> Q x) \<Longrightarrow> length (filter P xs) \<le> length (filter Q xs)"
proof (induction xs)
  case Nil
  then show ?case by simp
next
  case (Cons x xs)
  then show ?case by (auto simp: le_SucI)
qed

lemma dd_get_fst_lookup:
  "lookup_default dflt (fst (dd_get d k dflt)) u = lookup_default dflt d u"
  by (auto simp add: dd_get_def lookup_default_def split: option.splits if_splits)

lemma dd_get_fst_distinct:
  "distinct (map fst d) \<Longrightarrow> distinct (map fst (fst (dd_get d k dflt)))"
  by (auto simp add: dd_get_def map_of_eq_None_iff split: option.splits)

lemma dd_get_fst_total:
  "sum_list (map (\<lambda>p. length (snd p)) (fst (dd_get d k []))) = sum_list (map (\<lambda>p. length (snd p)) d)"
  by (simp add: dd_get_def split: option.splits)

lemma lookup_update:
  "lookup_default dflt (AList.update k v d) u = (if u = k then v else lookup_default dflt d u)"
  by (simp add: lookup_default_def update_conv')

subsection \<open>What \<open>check_rate_limit\<close> answers and stores\<close>

lemma check_rate_limit_verdict:
  assumes "u \<noteq> []"
  shows "snd (check_rate_limit s (Some u) t0 t1) =
    (let s1 = cleanup_old_requests s t0 in
     if request_count s1 u \<ge> MAX_REQUESTS_PER_USER then (False, rate_msg)
     else if running_jobs s1 u \<ge> MAX_CONCURRENT_JOBS then (False, concurrent_msg)
     else if total_requests s1 \<ge> GLOBAL_RATE_LIMIT then (False, busy_msg)
     else (True, ''''))"
proof -
  obtain d1 r where g1: "dd_get (user_request_times (cleanup_old_requests s t0)) u [] = (d1, r)"
    by (cases "dd_get (user_request_times (cleanup_old_requests s t0)) u []")
  obtain j1 c where g2: "dd_get (user_concurrent_jobs (cleanup_old_requests s t0)) u 0 = (j1, c)"
    by (cases "dd_get (user_concurrent_jobs (cleanup_old_requests s t0)) u 0")
  have r: "length r = request_count (cleanup_old_requests s t0) u"
    using dd_get_lookup [of "user_request_times (cleanup_old_requests s t0)" u "[]"] g1
    by (simp add: request_count_def)
  have c: "c = running_jobs (cleanup_old_requests s t0) u"
    using dd_get_lookup [of "user_concurrent_jobs (cleanup_old_requests s t0)" u 0] g2
    by (simp add: running_jobs_def)
  have t: "sum_list (map (\<lambda>p. length (snd p)) d1) = total_requests (cleanup_old_requests s t0)"
    using dd_get_fst_total [of "user_request_times (cleanup_old_requests s t0)" u] g1
    by (simp add: total_requests_def)
  show ?thesis
    using assms by (simp add: check_rate_limit_def Let_def g1 g2 r c t)
qed

lemma check_rate_limit_times:
  assumes "u \<noteq> []"
  shows "user_request_times (fst (check_rate_limit s (Some u) t0 t1)) =
    (let s1 = cleanup_old_requests s t0; d1 = fst (dd_get (user_request_times s1) u []) in
     if fst (snd (check_rate_limit s (Some u) t0 t1))
     then AList.update u (lookup_default [] (user_request_times s1) u @ [t1]) d1
     else d1)"
proof -
  obtain d1 r where g1: "dd_get (user_request_times (cleanup_old_requests s t0)) u [] = (d1, r)"
    by (cases "dd_get (user_request_times (cleanup_old_requests s t0)) u []")
  obtain j1 c where g2: "dd_get (user_concurrent_jobs (cleanup_old_requests s t0)) u 0 = (j1, c)"
    by (cases "dd_get (user_concurrent_jobs (cleanup_old_requests s t0)) u 0")
  have r: "r = lookup_default [] (user_request_times (cleanup_old_requests s t0)) u"
    using dd_get_lookup [of "user_request_times (cleanup_old_requests s t0)" u "[]"] g1
    by simp
  show ?thesis
    using assms by (simp add: check_rate_limit_def Let_def g1 g2 r)
qed

lemma check_rate_limit_no_session:
  "session_user = None \<or> session_user = Some [] \<Longrightarrow>
   check_rate_limit s session_user t0 t1 = (cleanup_old_requests s t0, False, ''No user session'')"
  by (auto simp add: check_rate_limit_def Let_def)

subsection \<open>The invariant along a run\<close>

lemma cleanup_old_requests_inv:
  assumes inv: "lim_inv s H K" and k: "K + RATE_LIMIT_WINDOW \<le> t0"
  shows "\<exists>K'. lim_inv (cleanup_old_requests s t0) H K' \<and> K' + RATE_LIMIT_WINDOW \<le> t0"
proof (cases "t0 - last_cleanup s < 10")
  case True
  with inv k show ?thesis by (auto simp add: cleanup_old_requests_def)
next
  case False
  let ?c = "t0 - RATE_LIMIT_WINDOW"
  have le: "K \<le> ?c" using k by simp
  have d: "distinct (map fst (user_request_times (cleanup_old_requests s t0)))"
    using inv False by (simp add: cleanup_old_requests_def lim_inv_def distinct_cleanup_loop)
  have l: "lookup_default [] (user_request_times (cleanup_old_requests s t0)) u =
           map snd (filter (\<lambda>p. fst p = u \<and> ?c < snd p) H)" for u
  proof -
    have "lookup_default [] (user_request_times (cleanup_old_requests s t0)) u =
          filter (\<lambda>t. t > ?c) (map snd (filter (\<lambda>p. fst p = u \<and> K < snd p) H))"
      using inv False by (simp add: cleanup_old_requests_def lim_inv_def lookup_cleanup_loop)
    also have "\<dots> = map snd (filter (\<lambda>p. ?c < snd p) (filter (\<lambda>p. fst p = u \<and> K < snd p) H))"
      by (simp add: filter_map comp_def)
    also have "\<dots> = map snd (filter (\<lambda>p. fst p = u \<and> ?c < snd p) H)"
      using le by (auto intro!: arg_cong [where f = "map snd"] filter_cong)
    finally show ?thesis .
  qed
  have "lim_inv (cleanup_old_requests s t0) H ?c"
    using d l by (simp add: lim_inv_def)
  then show ?thesis by (intro exI [of _ ?c]) simp
qed

lemma window_bounded_snoc:
  assumes wb: "window_bounded H"
    and u: "length (filter (\<lambda>p. fst p = u \<and> K < snd p) H) < MAX_REQUESTS_PER_USER"
    and g: "length (filter (\<lambda>p. K < snd p) H) < GLOBAL_RATE_LIMIT"
    and k: "K + RATE_LIMIT_WINDOW \<le> t1"
  shows "window_bounded (H @ [(u, t1)])"
proof -
  have user: "user_window_count (H @ [(u, t1)]) v a \<le> MAX_REQUESTS_PER_USER" for v a
  proof (cases "v = u \<and> in_window a t1")
    case False
    then have "user_window_count (H @ [(u, t1)]) v a = user_window_count H v a"
      by (auto simp add: user_window_count_def)
    with wb show ?thesis by (simp add: window_bounded_def)
  next
    case True
    then have "K < a" using k by (simp add: in_window_def)
    then have "length (filter (\<lambda>p. fst p = u \<and> in_window a (snd p)) H)
               \<le> length (filter (\<lambda>p. fst p = u \<and> K < snd p) H)"
      by (intro length_filter_mono) (auto simp add: in_window_def)
    with u True show ?thesis by (simp add: user_window_count_def)
  qed
  have glob: "global_window_count (H @ [(u, t1)]) a \<le> GLOBAL_RATE_LIMIT" for a
  proof (cases "in_window a t1")
    case False
    then have "global_window_count (H @ [(u, t1)]) a = global_window_count H a"
      by (auto simp add: global_window_count_def)
    with wb show ?thesis by (simp add: window_bounded_def)
  next
    case True
    then have "K < a" using k by (simp add: in_window_def)
    then have "length (filter (\<lambda>p. in_window a (snd p)) H)
               \<le> length (filter (\<lambda>p. K < snd p) H)"
      by (intro length_filter_mono) (auto simp add: in_window_def)
    with g True show ?thesis by (simp add: global_window_count_def)
  qed
  show ?thesis using user glob by (simp add: window_bounded_def)
qed

lemma lim_inv_counts:
  assumes "lim_inv s H K"
  shows "request_count s u = length (filter (\<lambda>p. fst p = u \<and> K < snd p) H)"
    and "total_requests s = length (filter (\<lambda>p. K < snd p) H)"
proof -
  show "request_count s u = length (filter (\<lambda>p. fst p = u \<and> K < snd p) H)"
    using assms by (simp add: lim_inv_def request_count_def)
  show "total_requests s = length (filter (\<lambda>p. K < snd p) H)"
    unfolding total_requests_def
    by (rule total_of_lookup) (use assms in \<open>simp_all add: lim_inv_def\<close>)
qed

lemma check_step_inv:
  assumes inv: "lim_inv s H K" and k: "K + RATE_LIMIT_WINDOW \<le> t0" and t: "t0 \<le> t1"
    and wb: "window_bounded H"
  shows "\<exists>K'. lim_inv (lim_step s (Check sess t0 t1)) (H @ admitted_by s (Check sess t0 t1)) K'
           \<and> K' + RATE_LIMIT_WINDOW \<le> t1
           \<and> window_bounded (H @ admitted_by s (Check sess t0 t1))"
proof -
  let ?s1 = "cleanup_old_requests s t0"
  from cleanup_old_requests_inv [OF inv k] obtain K'
    where inv1: "lim_inv ?s1 H K'" and k1: "K' + RATE_LIMIT_WINDOW \<le> t0" by blast
  have k1': "K' + RATE_LIMIT_WINDOW \<le> t1" using k1 t by simp
  have lt: "K' < t1" using k1' by (simp add: RATE_LIMIT_WINDOW_def)
  show ?thesis
  proof (cases "sess = None \<or> sess = Some []")
    case True
    then have "lim_step s (Check sess t0 t1) = ?s1" "admitted_by s (Check sess t0 t1) = []"
      by (auto simp add: check_rate_limit_no_session)
    with inv1 k1' wb show ?thesis by auto
  next
    case False
    then obtain u where u: "sess = Some u" "u \<noteq> []" by (cases sess) auto
    let ?d1 = "fst (dd_get (user_request_times ?s1) u [])"
    have d1_dist: "distinct (map fst ?d1)"
      using inv1 by (simp add: lim_inv_def dd_get_fst_distinct)
    show ?thesis
    proof (cases "fst (snd (check_rate_limit s (Some u) t0 t1))")
      case False
      then have times: "user_request_times (lim_step s (Check sess t0 t1)) = ?d1"
        using u check_rate_limit_times [OF u(2), of s t0 t1] by (simp add: Let_def)
      have adm: "admitted_by s (Check sess t0 t1) = []" using False u by simp
      have "lim_inv (lim_step s (Check sess t0 t1)) H K'"
        using inv1 d1_dist unfolding lim_inv_def times by (simp add: dd_get_fst_lookup)
      with adm k1' wb show ?thesis by auto
    next
      case True
      then have times: "user_request_times (lim_step s (Check sess t0 t1)) =
          AList.update u (lookup_default [] (user_request_times ?s1) u @ [t1]) ?d1"
        using u check_rate_limit_times [OF u(2), of s t0 t1] by (simp add: Let_def)
      have adm: "admitted_by s (Check sess t0 t1) = [(u, t1)]" using True u by simp
      have verdict: "request_count ?s1 u < MAX_REQUESTS_PER_USER"
                    "total_requests ?s1 < GLOBAL_RATE_LIMIT"
        using True check_rate_limit_verdict [OF u(2), of s t0 t1]
        by (auto simp add: Let_def split: if_splits)
      have inv2: "lim_inv (lim_step s (Check sess t0 t1)) (H @ [(u, t1)]) K'"
        unfolding lim_inv_def times
      proof (intro conjI allI)
        show "distinct (map fst (AList.update u (lookup_default [] (user_request_times ?s1) u @ [t1]) ?d1))"
          using d1_dist by (rule distinct_update)
        fix v
        show "lookup_default [] (AList.update u (lookup_default [] (user_request_times ?s1) u @ [t1]) ?d1) v =
              map snd (filter (\<lambda>p. fst p = v \<and> K' < snd p) (H @ [(u, t1)]))"
          using inv1 lt by (auto simp add: lookup_update dd_get_fst_lookup lim_inv_def)
      qed
      have "window_bounded (H @ [(u, t1)])"
        using wb verdict k1' unfolding lim_inv_counts [OF inv1]
        by (rule window_bounded_snoc)
      with inv2 adm k1' show ?thesis by auto
    qed
  qed
qed

lemma complete_step_inv:
  "lim_inv s H K \<Longrightarrow> lim_inv (rate_limit_complete s u) H K"
  by (simp add: lim_inv_def rate_limit_complete_def Let_def split: prod.splits)

lemma run_window_bounded:
  "lim_inv s H K \<Longrightarrow> K + RATE_LIMIT_WINDOW \<le> clock \<Longrightarrow> window_bounded H \<Longrightarrow>
   well_timed clock evs \<Longrightarrow> window_bounded (H @ admitted s evs)"
proof (induction evs arbitrary: s H K clock)
  case Nil
  then show ?case by simp
next
  case (Cons e evs)
  show ?case
  proof (cases e)
    case (Check sess t0 t1)
    with Cons.prems have t: "clock \<le> t0" "t0 \<le> t1" "well_timed t1 evs" by simp_all
    have k: "K + RATE_LIMIT_WINDOW \<le> t0" using Cons.prems(2) t(1) by simp
    from check_step_inv [OF Cons.prems(1) k t(2) Cons.prems(3), of sess]
    obtain K' where
      "lim_inv (lim_step s e) (H @ admitted_by s e) K'"
      "K' + RATE_LIMIT_WINDOW \<le> t1"
      "window_bounded (H @ admitted_by s e)"
      unfolding Check by blast
    from Cons.IH [OF this t(3)] show ?thesis by simp
  next
    case (Complete u)
    with Cons.prems have "well_timed clock evs" by simp
    from Cons.IH [OF complete_step_inv [OF Cons.prems(1)] Cons.prems(2,3) this, of u]
    show ?thesis using Complete by simp
  qed
qed

lemma init_inv: "lim_inv (init_limiter t) [] (t - RATE_LIMIT_WINDOW)"
  by (simp add: lim_inv_def init_limiter_def lookup_default_def)

subsection \<open>The run \<open>stale_run\<close>\<close>

lemmas lim_eval =
  init_limiter_def check_rate_limit_def cleanup_old_requests_def dd_get_def
  lookup_default_def rate_limit_complete_def Let_def RATE_LIMIT_WINDOW_def
  MAX_REQUESTS_PER_USER_def MAX_CONCURRENT_JOBS_def GLOBAL_RATE_LIMIT_def

lemma stale_state:
  "lim_run (init_limiter 0) stale_run =
     \<lparr>user_request_times = [(''u'', [1, 2, 3])], user_concurrent_jobs = [(''u'', 0)],
      last_cleanup = 60\<rparr>"
  by (simp add: stale_run_def lim_eval)

section \<open>Properties of the public tier's handler\<close>

subsection \<open>The sample requests\<close>

lemma cat_request_valid: "validate_request_data cat_request = Inr (True, [])"
  by (simp add: cat_request_def validate_request_data_def get_prompt_def lookup_default_def
      py_strip_def py_isspace_def)

lemma alice_user_id_match: "user_id_match alice"
  by (simp add: alice_def user_id_match_def is_lower_hex_def)

lemma cat_request_valid_internal: "validate_input (AList.update ''user_id'' (PStr alice) cat_request) = Inr (True, [])"
  by (simp add: cat_request_def validate_input_def get_prompt_def lookup_default_def
      py_strip_def py_isspace_def ALLOWED_CHARS_match_def allowed_char_def
      MAX_PROMPT_LENGTH_def MIN_DIMENSION_def MAX_DIMENSION_def MIN_STEPS_def MAX_STEPS_def
      check_user_id_def check_seed_def alice_user_id_match) (simp add: alice_def)

subsection \<open>The running-job counter\<close>

lemma running_jobs_cleanup [simp]:
  "running_jobs (cleanup_old_requests s t0) u = running_jobs s u"
  by (simp add: cleanup_old_requests_def running_jobs_def)

lemma check_rate_limit_jobs:
  assumes "u \<noteq> []"
  shows "user_concurrent_jobs (fst (check_rate_limit s (Some u) t0 t1)) =
    (if fst (snd (check_rate_limit s (Some u) t0 t1))
     then AList.update u (running_jobs s u + 1) (fst (dd_get (user_concurrent_jobs s) u 0))
     else if request_count (cleanup_old_requests s t0) u \<ge> MAX_REQUESTS_PER_USER
       then user_concurrent_jobs s
     else fst (dd_get (user_concurrent_jobs s) u 0))"
proof -
  let ?s1 = "cleanup_old_requests s t0"
  have j: "user_concurrent_jobs ?s1 = user_concurrent_jobs s"
    by (simp add: cleanup_old_requests_def)
  obtain d1 r where g1: "dd_get (user_request_times ?s1) u [] = (d1, r)"
    by (cases "dd_get (user_request_times ?s1) u []")
  obtain j1 c where g2: "dd_get (user_concurrent_jobs s) u 0 = (j1, c)"
    by (cases "dd_get (user_concurrent_jobs s) u 0")
  have r: "length r = request_count ?s1 u"
    using dd_get_lookup [of "user_request_times ?s1" u "[]"] g1
    by (simp add: request_count_def)
  have c: "c = running_jobs s u"
    using dd_get_lookup [of "user_concurrent_jobs s" u 0] g2
    by (simp add: running_jobs_def)
  show ?thesis
    using assms by (simp add: check_rate_limit_def Let_def g1 g2 r c j)
qed

lemma running_jobs_admitted:
  assumes "u \<noteq> []" and "fst (snd (check_rate_limit s (Some u) t0 t1))"
  shows "running_jobs (fst (check_rate_limit s (Some u) t0 t1)) v =
         (if v = u then running_jobs s u + 1 else running_jobs s v)"
  using assms check_rate_limit_jobs [OF assms(1), of s t0 t1]
  by (simp add: running_jobs_def lookup_update dd_get_fst_lookup)

lemma running_jobs_not_admitted:
  assumes "\<not> fst (snd (check_rate_limit s sess t0 t1))"
  shows "running_jobs (fst (check_rate_limit s sess t0 t1)) v = running_jobs s v"
proof (cases "sess = None \<or> sess = Some []")
  case True
  then show ?thesis by (auto simp add: check_rate_limit_no_session)
next
  case False
  then obtain u where u: "sess = Some u" "u \<noteq> []" by (cases sess) auto
  show ?thesis
    using assms check_rate_limit_jobs [OF u(2), of s t0 t1] u
    by (simp add: running_jobs_def dd_get_fst_lookup split: if_splits)
qed

lemma running_jobs_complete:
  "running_jobs (rate_limit_complete s u) v =
     (if v = u then max 0 (running_jobs s u - 1) else running_jobs s v)"
proof -
  obtain j1 c where g: "dd_get (user_concurrent_jobs s) u 0 = (j1, c)"
    by (cases "dd_get (user_concurrent_jobs s) u 0")
  have c: "c = running_jobs s u"
    using dd_get_lookup [of "user_concurrent_jobs s" u 0] g by (simp add: running_jobs_def)
  have j: "\<And>w. lookup_default 0 j1 w = lookup_default 0 (user_concurrent_jobs s) w"
    using dd_get_fst_lookup [of 0 "user_concurrent_jobs s" u] g by simp
  show ?thesis
    by (simp add: rate_limit_complete_def g c running_jobs_def lookup_update j)
qed

lemma request_times_complete [simp]:
  "user_request_times (rate_limit_complete s u) = user_request_times s"
  by (simp add: rate_limit_complete_def split: prod.splits)

subsection \<open>The handler\<close>

lemma dispatch_invalid:
  "validate_request_data data = Inr (False, msg) \<Longrightarrow>
   dispatch cfg svc u data network job_id now = (svc, 400, JFail msg)"
  by (simp add: dispatch_def)

lemma generate_image_admitted:
  assumes "fst (snd (check_rate_limit (public_tier sys) (Some u) t0 t1))" and "request_json \<noteq> []"
  shows "generate_image cfg sys (Some u) request_json t0 t1 network job_id now =
     (\<lparr>public_tier = rate_limit_complete (fst (check_rate_limit (public_tier sys) (Some u) t0 t1)) u,
       internal_tier = fst (dispatch cfg (internal_tier sys) u request_json network job_id now)\<rparr>,
      snd (dispatch cfg (internal_tier sys) u request_json network job_id now))"
proof -
  obtain lim1 ok msg where c: "check_rate_limit (public_tier sys) (Some u) t0 t1 = (lim1, ok, msg)"
    by (cases "check_rate_limit (public_tier sys) (Some u) t0 t1") auto
  obtain svc1 resp where d: "dispatch cfg (internal_tier sys) u request_json network job_id now = (svc1, resp)"
    by (cases "dispatch cfg (internal_tier sys) u request_json network job_id now") auto
  show ?thesis using assms by (simp add: generate_image_def c d)
qed

lemma admitted_nonempty_user:
  "fst (snd (check_rate_limit s (Some u) t0 t1)) \<Longrightarrow> u \<noteq> []"
  by (auto simp add: check_rate_limit_def Let_def)

lemma running_jobs_generate_image_nonneg:
  assumes "\<And>v. 0 \<le> running_jobs (public_tier sys) v"
  shows "0 \<le> running_jobs (public_tier (fst (generate_image cfg sys sess request_json t0 t1 network job_id now))) v"
proof (cases sess)
  case None
  then show ?thesis using assms by (simp add: generate_image_def)
next
  case (Some u)
  show ?thesis
  proof (cases "fst (snd (check_rate_limit (public_tier sys) (Some u) t0 t1))")
    case False
    obtain lim1 ok msg where c: "check_rate_limit (public_tier sys) (Some u) t0 t1 = (lim1, ok, msg)"
      by (cases "check_rate_limit (public_tier sys) (Some u) t0 t1") auto
    have "running_jobs lim1 v = running_jobs (public_tier sys) v"
      using running_jobs_not_admitted [of "public_tier sys" "Some u" t0 t1 v] False c by simp
    then show ?thesis using assms False c Some by (simp add: generate_image_def)
  next
    case True
    note u = admitted_nonempty_user [OF True]
    show ?thesis
    proof (cases "request_json = []")
      case e: True
      obtain lim1 ok msg where c: "check_rate_limit (public_tier sys) (Some u) t0 t1 = (lim1, ok, msg)"
        by (cases "check_rate_limit (public_tier sys) (Some u) t0 t1") auto
      have "running_jobs lim1 v = (if v = u then running_jobs (public_tier sys) u + 1 else running_jobs (public_tier sys) v)"
        using running_jobs_admitted [OF u True, of v] c by simp
      moreover have "0 \<le> running_jobs (public_tier sys) u" "0 \<le> running_jobs (public_tier sys) v"
        using assms by simp_all
      ultimately show ?thesis using True c Some e by (simp add: generate_image_def)
    next
      case False
      show ?thesis
        unfolding Some generate_image_admitted [OF True False]
        using assms by (simp add: running_jobs_complete running_jobs_admitted [OF u True])
    qed
  qed
qed

lemma sys_reachable_running_nonneg:
  "sys_reachable cfg sys \<Longrightarrow> 0 \<le> running_jobs (public_tier sys) v"
proof (induction arbitrary: v rule: sys_reachable.induct)
  case (sys_start t_start)
  show ?case by (simp add: init_system_def init_limiter_def running_jobs_def lookup_default_def)
next
  case (sys_next sys sys1)
  from sys_next.hyps(2) show ?case
  proof (cases rule: sys_step.cases)
    case (request job_id session_user request_json t0 t1 network svc_now)
    show ?thesis unfolding request(1)
      by (rule running_jobs_generate_image_nonneg) (rule sys_next.IH)
  next
    case (internal svc1)
    then show ?thesis using sys_next.IH by simp
  qed
qed

subsection \<open>Scenarios of the handler\<close>

lemma strip_replicate_a: "py_strip (replicate n (CHR ''a'')) = replicate n (CHR ''a'')"
proof -
  have "dropWhile py_isspace (replicate n (CHR ''a'')) = replicate n (CHR ''a'')"
    by (cases n) (simp_all add: py_isspace_def)
  then show ?thesis by (simp add: py_strip_def)
qed

lemma long_invalid: "validate_request_data long_request = Inr (False, ''Prompt too long'')"
  by (simp add: long_request_def validate_request_data_def get_prompt_def lookup_default_def
      strip_replicate_a)

lemma alice_admitted_fresh:
  "check_rate_limit (init_limiter 0) (Some alice) 1 1 =
     (\<lparr>user_request_times = [(alice, [1])], user_concurrent_jobs = [(alice, 1)], last_cleanup = 0\<rparr>,
      True, [])"
  by (simp add: lim_eval alice_def)

lemma bad_valid_gw: "validate_request_data bad_chars_request = Inr (True, [])"
  by (simp add: bad_chars_request_def validate_request_data_def get_prompt_def lookup_default_def
      py_strip_def py_isspace_def)

lemma bad_invalid_svc:
  "validate_input (AList.update ''user_id'' (PStr alice) bad_chars_request)
     = Inr (False, ''Prompt contains invalid characters'')"
  by (simp add: bad_chars_request_def validate_input_def get_prompt_def lookup_default_def
      py_strip_def py_isspace_def ALLOWED_CHARS_match_def allowed_char_def MAX_PROMPT_LENGTH_def)

lemma show_400: "show_nat 400 = ''400''"
  by (simp add: show_nat_small show_nat_large)

lemma alice_nonempty: "alice \<noteq> []"
  by (simp add: alice_def)

lemma leak_first: "generate_image cfg0 (init_system 0) (Some alice) [] 1 1 Delivered job1 1
       = (leaked_once, 400, JFail ''No data provided'')"
  by (simp add: generate_image_def init_system_def alice_admitted_fresh leaked_once_def)

lemma leak_second_check: "check_rate_limit (public_tier leaked_once) (Some alice) 2 2 = (public_tier leaked_twice, True, [])"
  using alice_nonempty by (simp add: leaked_once_def leaked_twice_def lim_eval)

lemma leak_second: "generate_image cfg0 leaked_once (Some alice) [] 2 2 Delivered job2 2
       = (leaked_twice, 400, JFail ''No data provided'')"
  by (simp add: generate_image_def leak_second_check) (simp add: leaked_once_def leaked_twice_def)

lemma leak_third_check: "snd (check_rate_limit (public_tier leaked_twice) (Some alice) 200 200) = (False, concurrent_msg)"
  using alice_nonempty by (simp add: leaked_twice_def lim_eval)

lemma generate_image_refused:
  assumes "\<not> fst (snd (check_rate_limit (public_tier sys) (Some u) t0 t1))"
  shows "generate_image cfg sys (Some u) request_json t0 t1 network job_id now =
     (sys\<lparr>public_tier := fst (check_rate_limit (public_tier sys) (Some u) t0 t1)\<rparr>,
      429, JFail (snd (snd (check_rate_limit (public_tier sys) (Some u) t0 t1))))"
proof -
  obtain lim1 ok msg where c: "check_rate_limit (public_tier sys) (Some u) t0 t1 = (lim1, ok, msg)"
    by (cases "check_rate_limit (public_tier sys) (Some u) t0 t1") auto
  show ?thesis using assms by (simp add: generate_image_def c)
qed

lemma leak_third: "snd (generate_image cfg0 leaked_twice (Some alice) cat_request 200 200 Delivered job3 200)
       = (429, JFail concurrent_msg)"
  by (simp add: generate_image_refused leak_third_check)

lemma leak_running_jobs: "running_jobs (public_tier (init_system 0)) alice = 0"
  "running_jobs (public_tier leaked_once) alice = 1"
  "running_jobs (public_tier leaked_twice) alice = 2"
  by (simp_all add: running_jobs_def lookup_default_def init_system_def init_limiter_def leaked_once_def leaked_twice_def)

section \<open>Properties of the internal tier\<close>

subsection \<open>What \<open>process_job\<close> and \<open>generate\<close> change\<close>

lemma set_failed_other: "k \<noteq> job_id \<Longrightarrow> map_of (set_failed js job_id msg) k = map_of js k"
  by (simp add: set_failed_def update_conv' split: option.splits)

lemma set_failed_same:
  "map_of (set_failed js job_id msg) job_id =
     map_option (\<lambda>j. j\<lparr>status := Failed, job_error := Some msg\<rparr>) (map_of js job_id)"
  by (simp add: set_failed_def update_conv' split: option.splits)

lemma set_completed_other:
  "set_completed js job_id seed = Some js1 \<Longrightarrow> k \<noteq> job_id \<Longrightarrow> map_of js1 k = map_of js k"
  by (auto simp add: set_completed_def update_conv' split: option.splits)

lemma set_completed_same:
  "set_completed js job_id seed = Some js1 \<Longrightarrow>
   \<exists>j. map_of js job_id = Some j \<and>
       map_of js1 job_id = Some (j\<lparr>status := Completed,
          job_result := Some (job_id, ''/output/'' @ job_id, seed)\<rparr>)"
  by (auto simp add: set_completed_def update_conv' split: option.splits)

lemma set_completed_None: "set_completed js job_id seed = None \<longleftrightarrow> map_of js job_id = None"
  by (simp add: set_completed_def split: option.splits)

lemma process_job_try_jobs_raise:
  "process_job_try cfg s job_id data env = (s1, Some e) \<Longrightarrow> jobs s1 = jobs s"
  by (auto simp add: process_job_try_def Let_def
      split: option.splits sum.splits prod.splits)

lemma process_job_try_jobs_done:
  "process_job_try cfg s job_id data env = (s1, None) \<Longrightarrow>
   \<exists>seed. set_completed (jobs s) job_id seed = Some (jobs s1)"
  by (auto simp add: process_job_try_def Let_def
      split: option.splits sum.splits prod.splits)

lemma process_job_try_threads:
  "threads (fst (process_job_try cfg s job_id data env)) = threads s"
  by (auto simp add: process_job_try_def Let_def
      split: option.splits sum.splits prod.splits)

lemma process_job_threads [simp]:
  "threads (process_job cfg s job_id data env) = threads s"
  using process_job_try_threads [of cfg s job_id data env]
  by (auto simp add: process_job_def split: prod.splits option.splits)

lemma process_job_other:
  assumes "k \<noteq> job_id"
  shows "map_of (jobs (process_job cfg s job_id data env)) k = map_of (jobs s) k"
proof -
  obtain s1 r where t: "process_job_try cfg s job_id data env = (s1, r)"
    by (cases "process_job_try cfg s job_id data env")
  show ?thesis
  proof (cases r)
    case None
    with t obtain seed where "set_completed (jobs s) job_id seed = Some (jobs s1)"
      using process_job_try_jobs_done by blast
    from set_completed_other [OF this assms] show ?thesis
      using t None by (simp add: process_job_def)
  next
    case (Some e)
    with t have "jobs s1 = jobs s" using process_job_try_jobs_raise by blast
    then show ?thesis using t Some assms by (simp add: process_job_def set_failed_other)
  qed
qed

lemma process_job_same:
  assumes "map_of (jobs s) job_id = Some j"
  shows "\<exists>j1. map_of (jobs (process_job cfg s job_id data env)) job_id = Some j1
     \<and> started_at j1 = started_at j \<and> job_data j1 = job_data j
     \<and> ((status j1 = Completed \<and> job_result j1 \<noteq> None)
         \<or> (status j1 = Failed \<and> job_error j1 \<noteq> None))"
proof -
  obtain s1 r where t: "process_job_try cfg s job_id data env = (s1, r)"
    by (cases "process_job_try cfg s job_id data env")
  show ?thesis
  proof (cases r)
    case None
    with t obtain seed where "set_completed (jobs s) job_id seed = Some (jobs s1)"
      using process_job_try_jobs_done by blast
    from set_completed_same [OF this] show ?thesis
      using t None assms by (auto simp add: process_job_def)
  next
    case (Some e)
    with t have "jobs s1 = jobs s" using process_job_try_jobs_raise by blast
    then show ?thesis using t Some assms by (simp add: process_job_def set_failed_same)
  qed
qed

lemma validate_input_nonempty: "validate_input data = Inr (True, m) \<Longrightarrow> data \<noteq> []"
  by (auto simp add: validate_input_def get_prompt_def lookup_default_def py_strip_def)

lemma generate_accepts:
  assumes "authorized cfg auth_header auth_query"
    and "map_of data ''prompt'' \<noteq> None" and "map_of data ''user_id'' \<noteq> None"
    and "validate_input data = Inr (True, m)"
  shows "generate cfg svc auth_header auth_query data job_id now =
     (svc\<lparr>jobs := AList.update job_id
              \<lparr>status = Processing, started_at = now, job_data = data,
               job_result = None, job_error = None\<rparr> (jobs svc),
           threads := threads svc @ [(job_id, data)]\<rparr>,
      200, JAccepted job_id)"
  using assms validate_input_nonempty [OF assms(4)] by (simp add: generate_def)

lemma generate_cases:
  "fst (generate cfg svc auth_header auth_query data job_id now) = svc
   \<or> (validate_input data = Inr (True, [])
      \<and> fst (generate cfg svc auth_header auth_query data job_id now) =
        svc\<lparr>jobs := AList.update job_id
              \<lparr>status = Processing, started_at = now, job_data = data,
               job_result = None, job_error = None\<rparr> (jobs svc),
           threads := threads svc @ [(job_id, data)]\<rparr>)"
proof -
  have v: "\<And>b m. validate_input data = Inr (b, m) \<Longrightarrow> b \<Longrightarrow> m = []"
    by (auto simp add: validate_input_def check_user_id_def check_seed_def
        split: sum.splits if_splits pyval.splits pyexc.splits prod.splits bool.splits
        elim!: invalid_format.elims)
  show ?thesis
    by (auto simp add: generate_def split: sum.splits prod.splits dest: v)
qed

subsection \<open>The invariant of the job store\<close>

lemma distinct_map_remove1_fst:
  "distinct (map f xs) \<Longrightarrow> distinct (map f (remove1 x xs))"
proof (induction xs)
  case Nil
  then show ?case by simp
next
  case (Cons y ys)
  have "set (remove1 x ys) \<subseteq> set ys" by (rule set_remove1_subset)
  with Cons show ?case by auto
qed

lemma svc_inv_init: "svc_inv init_service"
  by (simp add: svc_inv_def init_service_def)

lemma svc_step_inv:
  assumes inv: "svc_inv s" and st: "svc_step cfg s s1"
  shows "svc_inv s1"
  using st
proof (cases rule: svc_step.cases)
  case (submit job_id auth_header auth_query data now)
  from generate_cases [of cfg s auth_header auth_query data job_id now]
  show ?thesis
  proof
    assume "fst (generate cfg s auth_header auth_query data job_id now) = s"
    with inv submit show ?thesis by simp
  next
    assume a: "validate_input data = Inr (True, [])
      \<and> fst (generate cfg s auth_header auth_query data job_id now) =
        s\<lparr>jobs := AList.update job_id
              \<lparr>status = Processing, started_at = now, job_data = data,
               job_result = None, job_error = None\<rparr> (jobs s),
           threads := threads s @ [(job_id, data)]\<rparr>"
    have fresh: "job_id \<notin> fst ` set (threads s)"
      using inv submit(2) by (auto simp add: svc_inv_def)
    show ?thesis
      unfolding submit(1) using a inv fresh submit(2)
      by (auto simp add: svc_inv_def update_conv')
  qed
next
  case (work job_id data env)
  let ?s0 = "s\<lparr>threads := remove1 (job_id, data) (threads s)\<rparr>"
  from inv work(2) obtain j where j: "map_of (jobs s) job_id = Some j" "status j = Processing"
    by (force simp add: svc_inv_def)
  have d: "distinct (map fst (threads s))" using inv by (simp add: svc_inv_def)
  have rest: "\<And>p. p \<in> set (remove1 (job_id, data) (threads s)) \<Longrightarrow> fst p \<noteq> job_id"
  proof
    fix p assume p: "p \<in> set (remove1 (job_id, data) (threads s))" and e: "fst p = job_id"
    from d have dd: "distinct (threads s)" by (rule distinct_map [THEN iffD1, THEN conjunct1])
    from p dd have "p \<in> set (threads s)" "p \<noteq> (job_id, data)" by auto
    with work(2) e d show False
      by (metis eq_key_imp_eq_value prod.collapse)
  qed
  have 1: "distinct (map fst (threads s1))"
    unfolding work(1) using d by (simp add: distinct_map_remove1_fst)
  have 2: "\<forall>p \<in> set (threads s1). \<exists>j. map_of (jobs s1) (fst p) = Some j \<and> status j = Processing"
  proof
    fix p assume "p \<in> set (threads s1)"
    then have p: "p \<in> set (remove1 (job_id, data) (threads s))" unfolding work(1) by simp
    then have "p \<in> set (threads s)" using set_remove1_subset by fast
    with inv obtain j where "map_of (jobs s) (fst p) = Some j \<and> status j = Processing"
      by (auto simp add: svc_inv_def)
    then show "\<exists>j. map_of (jobs s1) (fst p) = Some j \<and> status j = Processing"
      unfolding work(1) using process_job_other [OF rest [OF p], of cfg ?s0 data env] by simp
  qed
  have 3: "\<forall>k j. map_of (jobs s1) k = Some j \<longrightarrow>
        (status j = Completed \<longrightarrow> job_result j \<noteq> None) \<and>
        (status j = Failed \<longrightarrow> job_error j \<noteq> None)"
  proof (intro allI impI)
    fix k j1 assume k: "map_of (jobs s1) k = Some j1"
    show "(status j1 = Completed \<longrightarrow> job_result j1 \<noteq> None) \<and>
        (status j1 = Failed \<longrightarrow> job_error j1 \<noteq> None)"
    proof (cases "k = job_id")
      case True
      from process_job_same [of ?s0 job_id j cfg data env] j k True
      show ?thesis unfolding work(1) by auto
    next
      case False
      from process_job_other [OF False, of cfg ?s0 data env] k
      have "map_of (jobs s) k = Some j1" unfolding work(1) by simp
      with inv show ?thesis by (simp add: svc_inv_def)
    qed
  qed
  from 1 2 3 show ?thesis by (simp add: svc_inv_def)
qed

lemma svc_reachable_inv: "svc_reachable cfg s \<Longrightarrow> svc_inv s"
  by (induction rule: svc_reachable.induct) (auto intro: svc_inv_init svc_step_inv)

lemma svc_step_terminal:
  assumes inv: "svc_inv s" and st: "svc_step cfg s s1"
    and j: "map_of (jobs s) k = Some j" and t: "status j \<noteq> Processing"
  shows "map_of (jobs s1) k = Some j"
  using st
proof (cases rule: svc_step.cases)
  case (submit job_id auth_header auth_query data now)
  have "k \<noteq> job_id" using submit(2) j by auto
  with generate_cases [of cfg s auth_header auth_query data job_id now] j
  show ?thesis unfolding submit(1) by (auto simp add: update_conv')
next
  case (work job_id data env)
  from inv work(2) obtain j0 where "map_of (jobs s) job_id = Some j0" "status j0 = Processing"
    by (force simp add: svc_inv_def)
  with j t have "k \<noteq> job_id" by auto
  from process_job_other [OF this, of cfg "s\<lparr>threads := remove1 (job_id, data) (threads s)\<rparr>" data env] j
  show ?thesis unfolding work(1) by simp
qed

lemma svc_step_job_kept:
  assumes inv: "svc_inv s" and st: "svc_step cfg s s1"
    and j: "map_of (jobs s) k = Some j"
  shows "\<exists>j1. map_of (jobs s1) k = Some j1 \<and> started_at j1 = started_at j"
  using st
proof (cases rule: svc_step.cases)
  case (submit job_id auth_header auth_query data now)
  have "k \<noteq> job_id" using submit(2) j by auto
  with generate_cases [of cfg s auth_header auth_query data job_id now] j
  show ?thesis unfolding submit(1) by (auto simp add: update_conv')
next
  case (work job_id data env)
  let ?s0 = "s\<lparr>threads := remove1 (job_id, data) (threads s)\<rparr>"
  show ?thesis
  proof (cases "k = job_id")
    case True
    from process_job_same [of ?s0 job_id j cfg data env] j True
    show ?thesis unfolding work(1) by auto
  next
    case False
    from process_job_other [OF False, of cfg ?s0 data env] j
    show ?thesis unfolding work(1) by simp
  qed
qed

lemma svc_steps_inv: "(svc_step cfg)\<^sup>*\<^sup>* s s1 \<Longrightarrow> svc_inv s \<Longrightarrow> svc_inv s1"
  by (induction rule: rtranclp_induct) (auto intro: svc_step_inv)

lemma svc_steps_terminal:
  "(svc_step cfg)\<^sup>*\<^sup>* s s1 \<Longrightarrow> svc_inv s \<Longrightarrow> map_of (jobs s) k = Some j \<Longrightarrow>
   status j \<noteq> Processing \<Longrightarrow> map_of (jobs s1) k = Some j"
proof (induction rule: rtranclp_induct)
  case base
  then show ?case by simp
next
  case (step y z)
  show ?case
    by (rule svc_step_terminal [OF svc_steps_inv [OF step.hyps(1) step.prems(1)] step.hyps(2)
          step.IH [OF step.prems] step.prems(3)])
qed

lemma svc_steps_job_kept:
  "(svc_step cfg)\<^sup>*\<^sup>* s s1 \<Longrightarrow> svc_inv s \<Longrightarrow> map_of (jobs s) k = Some j \<Longrightarrow>
   \<exists>j1. map_of (jobs s1) k = Some j1 \<and> started_at j1 = started_at j"
proof (induction rule: rtranclp_induct)
  case base
  then show ?case by simp
next
  case (step y z)
  from step.IH [OF step.prems] obtain j1 where
    j1: "map_of (jobs y) k = Some j1" "started_at j1 = started_at j" by blast
  from svc_step_job_kept [OF svc_steps_inv [OF step.hyps(1) step.prems(1)] step.hyps(2) j1(1)] j1(2)
  show ?case by auto
qed

subsection \<open>Scenarios: a job that fails\<close>

lemma alice_cat_update: "AList.update ''user_id'' (PStr alice) cat_request = alice_cat"
  by (simp add: cat_request_def alice_cat_def)

lemma alice_cat_valid: "validate_input alice_cat = Inr (True, [])"
  using cat_request_valid_internal by (simp add: alice_cat_update)

lemma authorized_header: "auth_token cfg \<noteq> [] \<Longrightarrow> authorized cfg (Some (auth_token cfg)) None"
  by (simp add: authorized_def)

lemma cfg0_authorized: "authorized cfg0 (Some ''secret'') None"
  by (simp add: authorized_def cfg0_def)

lemma job_ids_distinct: "job1 \<noteq> job2" "job1 \<noteq> job3" "job2 \<noteq> job3"
  by (simp_all add: job1_def job2_def job3_def)

lemma alice_cat_keys: "map_of alice_cat ''prompt'' \<noteq> None" "map_of alice_cat ''user_id'' \<noteq> None"
  by (simp_all add: alice_cat_def)

lemmas generate_alice_cat =
  generate_accepts [OF cfg0_authorized alice_cat_keys alice_cat_valid]

lemma generate_first: "generate cfg0 init_service (Some ''secret'') None alice_cat job1 1
   = (one_job, 200, JAccepted job1)"
  by (simp add: generate_alice_cat init_service_def one_job_def new_job_def)

lemma work_first_fault: "process_job cfg0 (one_job\<lparr>threads := remove1 (job1, alice_cat) (threads one_job)\<rparr>)
     job1 alice_cat env_fault = one_failed"
  by (simp add: process_job_def process_job_try_def one_job_def one_failed_def env_fault_def
      alice_cat_def ensure_user_directory_def process_image_def set_failed_def lookup_default_def
      new_job_def)

lemma generate_second: "generate cfg0 one_failed (Some ''secret'') None alice_cat job2 2
   = (failed_and_new, 200, JAccepted job2)"
  using job_ids_distinct
  by (simp add: generate_alice_cat one_failed_def failed_and_new_def new_job_def)

lemma one_failed_reachable: "svc_reachable cfg0 one_failed"
proof -
  have "svc_step cfg0 init_service (fst (generate cfg0 init_service (Some ''secret'') None alice_cat job1 1))"
    by (rule svc_step.submit) (simp add: init_service_def)
  then have 1: "svc_reachable cfg0 one_job"
    using svc_reachable.start by (auto simp add: generate_first intro: svc_reachable.step)
  have "svc_step cfg0 one_job
          (process_job cfg0 (one_job\<lparr>threads := remove1 (job1, alice_cat) (threads one_job)\<rparr>)
             job1 alice_cat env_fault)"
    by (rule svc_step.work) (simp add: one_job_def)
  with 1 show ?thesis unfolding work_first_fault by (rule svc_reachable.step)
qed

lemma one_failed_step: "svc_step cfg0 one_failed failed_and_new"
proof -
  have "svc_step cfg0 one_failed (fst (generate cfg0 one_failed (Some ''secret'') None alice_cat job2 2))"
    by (rule svc_step.submit) (use job_ids_distinct in \<open>simp add: one_failed_def\<close>)
  then show ?thesis by (simp add: generate_second)
qed

lemma get_job_status_read:
  assumes "authorized cfg h q"
  shows "get_job_status cfg s h q k = (200, JStatus st t r e) \<longleftrightarrow>
     (\<exists>j. map_of (jobs s) k = Some j \<and> status j = st \<and> started_at j = t \<and>
        (case st of
           Processing \<Rightarrow> r = None \<and> e = None
         | Completed \<Rightarrow> r = job_result j \<and> r \<noteq> None \<and> e = None
         | Failed \<Rightarrow> r = None \<and> e = job_error j \<and> e \<noteq> None))"
  using assms
  by (cases st) (auto simp add: get_job_status_def split: option.splits job_status.splits)

lemma one_failed_read:
  "get_job_status cfg0 one_failed (Some ''secret'') None job1
     = (200, JStatus Failed 1 None (Some ''CUDA out of memory''))"
  by (simp add: get_job_status_def cfg0_authorized one_failed_def new_job_def)

subsection \<open>Accepted requests\<close>

lemma validate_input_prompt:
  "validate_input data = Inr (True, m) \<Longrightarrow> \<exists>p. map_of data ''prompt'' = Some (PStr p)"
  by (auto simp add: validate_input_def get_prompt_def lookup_default_def py_strip_def
      split: option.splits pyval.splits if_splits sum.splits)

lemma validate_input_user_id:
  assumes "validate_input data = Inr (True, m)"
  shows "\<exists>u. map_of data ''user_id'' = Some (PStr u) \<and> user_id_match u"
proof -
  from assms have "\<exists>m1. check_user_id data = Inr (True, m1)"
    by (auto simp add: validate_input_def
        split: sum.splits if_splits prod.splits bool.splits elim!: invalid_format.elims)
  then show ?thesis
    by (auto simp add: check_user_id_def lookup_default_def
        split: option.splits pyval.splits if_splits elim!: invalid_format.elims)
qed

lemma generate_image_accepted:
  assumes adm: "fst (snd (check_rate_limit (public_tier sys) (Some u) t0 t1))"
    and ne: "request_json \<noteq> []"
    and v1: "validate_request_data request_json = Inr (True, m)"
    and v2: "validate_input (AList.update ''user_id'' (PStr u) request_json) = Inr (True, m1)"
    and tok: "auth_token cfg \<noteq> []"
  shows "generate_image cfg sys (Some u) request_json t0 t1 Delivered job_id now =
     (\<lparr>public_tier = rate_limit_complete (fst (check_rate_limit (public_tier sys) (Some u) t0 t1)) u,
       internal_tier = (internal_tier sys)
         \<lparr>jobs := AList.update job_id (new_job now (AList.update ''user_id'' (PStr u) request_json))
                    (jobs (internal_tier sys)),
          threads := threads (internal_tier sys)
                     @ [(job_id, AList.update ''user_id'' (PStr u) request_json)]\<rparr>\<rparr>,
      200, JAccepted job_id)"
proof -
  from validate_input_prompt [OF v2] validate_input_user_id [OF v2]
  have k: "map_of (AList.update ''user_id'' (PStr u) request_json) ''prompt'' \<noteq> None"
    "map_of (AList.update ''user_id'' (PStr u) request_json) ''user_id'' \<noteq> None" by auto
  have g: "generate cfg (internal_tier sys) (Some (auth_token cfg)) None
             (AList.update ''user_id'' (PStr u) request_json) job_id now =
           ((internal_tier sys)
              \<lparr>jobs := AList.update job_id
                         (new_job now (AList.update ''user_id'' (PStr u) request_json))
                         (jobs (internal_tier sys)),
               threads := threads (internal_tier sys)
                          @ [(job_id, AList.update ''user_id'' (PStr u) request_json)]\<rparr>,
            200, JAccepted job_id)"
    by (simp add: generate_accepts [OF authorized_header [OF tok] k v2] new_job_def)
  have d: "dispatch cfg (internal_tier sys) u request_json Delivered job_id now =
     ((internal_tier sys)
         \<lparr>jobs := AList.update job_id (new_job now (AList.update ''user_id'' (PStr u) request_json))
                    (jobs (internal_tier sys)),
          threads := threads (internal_tier sys)
                     @ [(job_id, AList.update ''user_id'' (PStr u) request_json)]\<rparr>,
      200, JAccepted job_id)"
    by (simp add: dispatch_def v1 g)
  show ?thesis
    by (simp add: generate_image_admitted [OF adm ne] d)
qed

lemma cfg0_token: "auth_token cfg0 \<noteq> []"
  by (simp add: cfg0_def)

lemma cat_request_nonempty: "cat_request \<noteq> []"
  by (simp add: cat_request_def)

lemma check_once:
  "check_rate_limit (public_tier submitted_once) (Some alice) 2 2 =
     (\<lparr>user_request_times = [(alice, [1, 2])], user_concurrent_jobs = [(alice, 1)], last_cleanup = 0\<rparr>,
      True, [])"
  using alice_nonempty by (simp add: submitted_once_def lim_eval)

lemma check_twice:
  "check_rate_limit (public_tier submitted_twice) (Some alice) 3 3 =
     (\<lparr>user_request_times = [(alice, [1, 2, 3])], user_concurrent_jobs = [(alice, 1)], last_cleanup = 0\<rparr>,
      True, [])"
  using alice_nonempty by (simp add: submitted_twice_def lim_eval)

lemma release_alice:
  "rate_limit_complete \<lparr>user_request_times = ts, user_concurrent_jobs = [(alice, 1)], last_cleanup = c\<rparr> alice
     = \<lparr>user_request_times = ts, user_concurrent_jobs = [(alice, 0)], last_cleanup = c\<rparr>"
  by (simp add: rate_limit_complete_def dd_get_def)

lemmas accept_cat =
  generate_image_accepted [where u = alice and request_json = cat_request,
    OF _ cat_request_nonempty cat_request_valid cat_request_valid_internal cfg0_token,
    unfolded alice_cat_update]

lemma first_submission:
  "generate_image cfg0 (init_system 0) (Some alice) cat_request 1 1 Delivered job1 1
     = (submitted_once, 200, JAccepted job1)"
  by (subst accept_cat)
     (simp_all add: init_system_def alice_admitted_fresh release_alice submitted_once_def
        init_service_def)

lemma second_submission:
  "generate_image cfg0 submitted_once (Some alice) cat_request 2 2 Delivered job2 2
     = (submitted_twice, 200, JAccepted job2)"
  using job_ids_distinct
  by (subst accept_cat)
     (simp_all add: check_once release_alice, simp add: submitted_once_def submitted_twice_def)

lemma third_submission:
  "generate_image cfg0 submitted_twice (Some alice) cat_request 3 3 Delivered job3 3
     = (submitted_thrice, 200, JAccepted job3)"
  using job_ids_distinct
  by (subst accept_cat)
     (simp_all add: check_twice release_alice, simp add: submitted_twice_def submitted_thrice_def)

lemma submitted_thrice_reachable: "sys_reachable cfg0 submitted_thrice"
proof -
  have 0: "sys_reachable cfg0 (init_system 0)" by (rule sys_reachable.sys_start)
  have "sys_step cfg0 (init_system 0)
          (fst (generate_image cfg0 (init_system 0) (Some alice) cat_request 1 1 Delivered job1 1))"
    by (rule sys_step.request) (simp add: init_system_def init_service_def)
  with 0 have 1: "sys_reachable cfg0 submitted_once"
    unfolding first_submission fst_conv by (rule sys_reachable.sys_next)
  have "sys_step cfg0 submitted_once
          (fst (generate_image cfg0 submitted_once (Some alice) cat_request 2 2 Delivered job2 2))"
    by (rule sys_step.request) (use job_ids_distinct in \<open>simp add: submitted_once_def\<close>)
  with 1 have 2: "sys_reachable cfg0 submitted_twice"
    unfolding second_submission fst_conv by (rule sys_reachable.sys_next)
  have "sys_step cfg0 submitted_twice
          (fst (generate_image cfg0 submitted_twice (Some alice) cat_request 3 3 Delivered job3 3))"
    by (rule sys_step.request) (use job_ids_distinct in \<open>simp add: submitted_twice_def\<close>)
  with 2 show ?thesis
    unfolding third_submission fst_conv by (rule sys_reachable.sys_next)
qed

subsection \<open>Scenarios: a job that completes across a second boundary\<close>

lemma strftime_noon: "strftime noon = ''20250309-120000''"
  by (simp add: strftime_def noon_def zero_pad_def show_nat_small show_nat_large)

lemma strftime_second: "strftime second_past_noon = ''20250309-120001''"
  by (simp add: strftime_def second_past_noon_def zero_pad_def show_nat_small show_nat_large)

lemma sanitized_cat: "sanitized_prompt ''a cat'' = ''a_cat''"
  by (simp add: sanitized_prompt_def removed_char_def)

lemma filename_noon: "filename ''a cat'' noon = saved_name"
  by (simp add: filename_def strftime_noon sanitized_cat saved_name_def)

lemma filename_second: "filename ''a cat'' second_past_noon = mapped_name"
  by (simp add: filename_def strftime_second sanitized_cat mapped_name_def)

lemma alice_dir_join: "os_path_join (upload_folder cfg0) alice = alice_dir"
  by (simp add: os_path_join_def cfg0_def alice_def alice_dir_def)

lemma relpath_mapped:
  "os_path_relpath (os_path_join alice_dir mapped_name) (upload_folder cfg0)
     = Inr (alice @ ''/'' @ mapped_name)"
  by (simp add: os_path_relpath_def os_path_join_def alice_dir_def mapped_name_def cfg0_def
      path_parts_def os_path_normpath_def alice_def Let_def)

lemma process_image_tick:
  "process_image env_tick (\<lambda>p. None) (PStr ''a cat'') PNone alice_dir =
     ((\<lambda>p. None)(os_path_join alice_dir saved_name := Some (Image 7)),
      Inr (os_path_join alice_dir mapped_name, PInt 42))"
  by (simp add: process_image_def env_tick_def filename_noon filename_second)

lemma work_tick:
  "process_job cfg0 (one_job\<lparr>threads := remove1 (job1, alice_cat) (threads one_job)\<rparr>)
     job1 alice_cat env_tick = one_completed"
proof -
  have e: "ensure_user_directory cfg0 env_tick (PStr alice) = Inr alice_dir"
    by (simp add: ensure_user_directory_def env_tick_def alice_dir_join)
  have j: "os_path_join alice_dir saved_name = alice_dir @ ''/'' @ saved_name"
    by (simp add: os_path_join_def alice_dir_def saved_name_def)
  have p: "pipeline_fault env_tick = None" by (simp add: env_tick_def)
  show ?thesis
    by (simp add: process_job_def process_job_try_def p one_job_def alice_cat_def e
        lookup_default_def process_image_tick relpath_mapped set_completed_def j
        one_completed_def)
qed

subsection \<open>Paths\<close>

lemma split_sep_nonempty [simp]: "split_sep s \<noteq> []"
  by (induction s) (auto split: list.splits)

lemma split_sep_plain: "CHR ''/'' \<notin> set w \<Longrightarrow> split_sep w = [w]"
  by (induction w) auto

lemma split_sep_append: "CHR ''/'' \<notin> set w \<Longrightarrow> split_sep (w @ CHR ''/'' # rest) = w # split_sep rest"
  by (induction w) (auto split: list.splits)

lemma join_sep_Cons: "ws \<noteq> [] \<Longrightarrow> join_sep (w # ws) = w @ CHR ''/'' # join_sep ws"
  by (cases ws) auto

lemma split_join:
  "segs \<noteq> [] \<Longrightarrow> \<forall>seg \<in> set segs. CHR ''/'' \<notin> set seg \<Longrightarrow> split_sep (join_sep segs) = segs"
proof (induction segs rule: join_sep.induct)
  case 1
  then show ?case by simp
next
  case (2 w)
  then show ?case by (simp add: split_sep_plain)
next
  case (3 w v ws)
  then show ?case by (simp add: split_sep_append)
qed

lemma join_split: "join_sep (split_sep s) = s"
proof (induction s)
  case Nil
  show ?case by simp
next
  case (Cons c cs)
  show ?case
  proof (cases "c = CHR ''/''")
    case True
    then show ?thesis using Cons by (simp add: join_sep_Cons)
  next
    case False
    obtain w ws where s: "split_sep cs = w # ws" by (cases "split_sep cs") auto
    have "join_sep ((c # w) # ws) = c # join_sep (w # ws)" by (cases ws) auto
    with False s Cons show ?thesis by simp
  qed
qed

lemma join_sep_snoc: "segs \<noteq> [] \<Longrightarrow> join_sep (segs @ [u]) = join_sep segs @ CHR ''/'' # u"
  by (induction segs rule: join_sep.induct) auto

lemma join_sep_hd: "segs \<noteq> [] \<Longrightarrow> hd segs \<noteq> [] \<Longrightarrow> join_sep segs \<noteq> [] \<and> hd (join_sep segs) = hd (hd segs)"
  by (induction segs rule: join_sep.induct) auto

lemma join_sep_nonempty: "segs \<noteq> [] \<Longrightarrow> last segs \<noteq> [] \<Longrightarrow> join_sep segs \<noteq> []"
  by (induction segs rule: join_sep.induct) auto

lemma join_sep_last: "segs \<noteq> [] \<Longrightarrow> last segs \<noteq> [] \<Longrightarrow> last (join_sep segs) = last (last segs)"
  by (induction segs rule: join_sep.induct) (auto simp add: join_sep_nonempty)

lemma norm_comps_clean:
  "list_all clean_segment segs \<Longrightarrow> norm_comps b segs acc = acc @ segs"
  by (induction segs arbitrary: acc) (auto simp add: clean_segment_def)

lemma common_prefix_len_append: "common_prefix_len xs (xs @ ys) = length xs"
proof (induction xs)
  case Nil
  show ?case by (cases ys) simp_all
next
  case (Cons a xs)
  then show ?case by simp
qed

lemma clean_hd: "clean_segment seg \<Longrightarrow> hd seg \<noteq> CHR ''/''"
  by (cases seg) (auto simp add: clean_segment_def)

lemma clean_no_sep: "list_all clean_segment segs \<Longrightarrow> \<forall>seg \<in> set segs. CHR ''/'' \<notin> set seg"
  by (auto simp add: list_all_iff clean_segment_def)

lemma clean_join_start:
  assumes "segs \<noteq> []" and "list_all clean_segment segs"
  shows "\<exists>x xs. join_sep segs = x # xs \<and> x \<noteq> CHR ''/''"
proof -
  obtain seg rest where s: "segs = seg # rest" using assms(1) by (cases segs) auto
  with assms(2) have c: "clean_segment seg" by simp
  then obtain y ys where y: "seg = y # ys" "y \<noteq> CHR ''/''"
    by (cases seg) (auto simp add: clean_segment_def)
  have "join_sep (seg # rest) = y # (ys @ (if rest = [] then [] else CHR ''/'' # join_sep rest))"
    unfolding y by (cases rest) simp_all
  with s y(2) show ?thesis by blast
qed

lemma normpath_abs:
  assumes "segs \<noteq> []" and "list_all clean_segment segs"
  shows "os_path_normpath (CHR ''/'' # join_sep segs) = CHR ''/'' # join_sep segs"
proof -
  from clean_join_start [OF assms]
  obtain x xs where j: "join_sep segs = x # xs" "x \<noteq> CHR ''/''" by blast
  have s: "split_sep (CHR ''/'' # x # xs) = [] # segs"
    using split_join [OF assms(1) clean_no_sep [OF assms(2)]] j(1) by simp
  have n: "norm_comps True segs [] = segs"
    using norm_comps_clean [OF assms(2), of True "[]"] by simp
  show ?thesis
    unfolding j(1) os_path_normpath_def s
    using j(2) by (simp add: j(1) n)
qed

lemma path_parts_abs:
  assumes "segs \<noteq> []" and "list_all clean_segment segs"
  shows "path_parts (CHR ''/'' # join_sep segs) = segs"
proof -
  from clean_join_start [OF assms]
  obtain x xs where j: "join_sep segs = x # xs" "x \<noteq> CHR ''/''" by blast
  have d: "dropWhile (\<lambda>c. c = CHR ''/'') (CHR ''/'' # x # xs) = x # xs"
    using j(2) by simp
  have s: "split_sep (x # xs) = segs"
    using split_join [OF assms(1) clean_no_sep [OF assms(2)]] j(1) by simp
  have np: "os_path_normpath (CHR ''/'' # join_sep segs) = CHR ''/'' # x # xs"
    using normpath_abs [OF assms] j(1) by simp
  have "path_parts (CHR ''/'' # join_sep segs) =
        (let tail = dropWhile (\<lambda>c. c = CHR ''/'') (CHR ''/'' # x # xs)
         in if tail = [] then [] else split_sep tail)"
    by (simp only: path_parts_def np)
  also have "\<dots> = split_sep (x # xs)"
    by (simp only: d Let_def list.distinct if_False)
  also have "\<dots> = segs" by (rule s)
  finally show ?thesis .
qed

lemma relpath_under:
  assumes "segs \<noteq> []" and "list_all clean_segment segs"
    and "clean_segment u" and "clean_segment f"
  shows "os_path_relpath (CHR ''/'' # join_sep (segs @ [u, f])) (CHR ''/'' # join_sep segs)
           = Inr (u @ CHR ''/'' # f)"
proof -
  have a: "segs @ [u, f] \<noteq> []" "list_all clean_segment (segs @ [u, f])"
    using assms by simp_all
  have ne: "CHR ''/'' # join_sep (segs @ [u, f]) \<noteq> []" by simp
  have "os_path_relpath (CHR ''/'' # join_sep (segs @ [u, f])) (CHR ''/'' # join_sep segs) =
        (let i = common_prefix_len segs (segs @ [u, f]);
             rel_list = replicate (length segs - i) ''..'' @ drop i (segs @ [u, f])
         in if rel_list = [] then Inr ''.'' else Inr (join_sep rel_list))"
    by (simp only: os_path_relpath_def ne if_False path_parts_abs [OF assms(1,2)]
        path_parts_abs [OF a] Let_def)
  also have "\<dots> = Inr (u @ CHR ''/'' # f)"
    by (simp add: common_prefix_len_append Let_def)
  finally show ?thesis .
qed

subsection \<open>File names and user ids are plain names\<close>

lemma show_nat_digits: "set (show_nat n) \<subseteq> set ''0123456789''"
proof (induction n rule: show_nat.induct)
  case (1 n)
  have d: "\<And>k. k < 10 \<Longrightarrow> ''0123456789'' ! k \<in> set ''0123456789''"
    by (rule nth_mem) simp
  show ?case
  proof (cases "n < 10")
    case True
    then show ?thesis using d [of n] by (simp only: show_nat_small) simp
  next
    case False
    have "n mod 10 < 10" by simp
    from d [OF this] 1 [OF False] show ?thesis
      by (simp only: show_nat_large [OF False]) simp
  qed
qed

lemma zero_pad_digits: "set (zero_pad w n) \<subseteq> set ''0123456789''"
  using show_nat_digits [of n] by (auto simp add: zero_pad_def)

lemma strftime_no_sep: "CHR ''/'' \<notin> set (strftime d)"
proof -
  have "\<And>w n. CHR ''/'' \<notin> set (zero_pad w n)"
    using zero_pad_digits by fastforce
  then show ?thesis by (simp add: strftime_def)
qed

lemma sanitized_no_sep: "CHR ''/'' \<notin> set (sanitized_prompt p)"
  by (auto simp add: sanitized_prompt_def removed_char_def)

lemma filename_clean: "clean_segment (filename p d)"
proof -
  have 1: "CHR ''/'' \<notin> set (filename p d)"
    using strftime_no_sep [of d] sanitized_no_sep [of p] by (simp add: filename_def)
  have 2: "length (filename p d) \<ge> 5" by (simp add: filename_def)
  then have 3: "filename p d \<noteq> []" "filename p d \<noteq> ''.''" "filename p d \<noteq> ''..''"
    by auto
  from 1 3 show ?thesis by (simp add: clean_segment_def)
qed

lemma hexdash_plain: "hexdash c \<Longrightarrow> c \<noteq> CHR ''/'' \<and> c \<noteq> CHR ''.''"
  by (auto simp add: hexdash_def is_lower_hex_def)

lemma hex_hexdash: "list_all is_lower_hex xs \<Longrightarrow> list_all hexdash xs"
  by (simp add: list_all_iff hexdash_def)

lemma match_groups_prefix:
  "match_groups ns s = Some rest \<Longrightarrow> \<forall>n \<in> set ns. 0 < n \<Longrightarrow>
   \<exists>pre. s = pre @ rest \<and> list_all hexdash pre \<and> (ns \<noteq> [] \<longrightarrow> pre \<noteq> [])"
proof (induction ns s rule: match_groups.induct)
  case (1 s)
  then show ?case by simp
next
  case (2 n s)
  from "2.prems"(1) have c: "n \<le> length s \<and> list_all is_lower_hex (take n s)"
    by (simp split: if_splits)
  with "2.prems"(1) have r: "rest = drop n s" by simp
  from "2.prems"(2) have n: "0 < n" by simp
  have "s = take n s @ rest" using r by simp
  moreover have "list_all hexdash (take n s)" using c by (simp add: hex_hexdash)
  moreover have "take n s \<noteq> []" using c n by auto
  ultimately show ?case by blast
next
  case (3 n m ns s)
  from "3.prems"(1) have c: "n < length s \<and> list_all is_lower_hex (take n s) \<and> s ! n = CHR ''-''"
    by (simp split: if_splits)
  with "3.prems"(1) have r: "match_groups (m # ns) (drop (Suc n) s) = Some rest" by simp
  from "3.prems"(2) have "\<forall>n \<in> set (m # ns). 0 < n" by simp
  from "3.IH" [OF c r this] obtain pre where
    p: "drop (Suc n) s = pre @ rest" "list_all hexdash pre" by blast
  from c have "n < length s" by simp
  then have s: "s = take n s @ s ! n # drop (Suc n) s"
    by (rule id_take_nth_drop)
  let ?pre = "take n s @ CHR ''-'' # pre"
  have "take n s @ s ! n # drop (Suc n) s = ?pre @ rest" using p(1) c by simp
  with s have "s = ?pre @ rest" by simp
  moreover have "list_all hexdash ?pre"
    using c p(2) by (simp add: hex_hexdash hexdash_def)
  ultimately show ?case by blast
qed

lemma user_id_clean:
  assumes "user_id_match u"
  shows "clean_segment u"
proof -
  from assms obtain rest where m: "match_groups [8, 4, 4, 4, 12] u = Some rest"
    and r: "rest = [] \<or> rest = [CHR 0x0A]"
    by (auto simp add: user_id_match_def split: option.splits)
  have pos: "\<forall>n \<in> set [8, 4, 4, 4, 12 :: nat]. 0 < n" by simp
  from match_groups_prefix [OF m pos] obtain pre where
    p: "u = pre @ rest" "list_all hexdash pre" "pre \<noteq> []" by blast
  obtain c cs where c: "pre = c # cs" using p(3) by (cases pre) auto
  have h: "hexdash c" using p(2) c by simp
  have "\<forall>x \<in> set pre. x \<noteq> CHR ''/''"
    using p(2) hexdash_plain by (auto simp add: list_all_iff)
  moreover have "\<forall>x \<in> set rest. x \<noteq> CHR ''/''" using r by auto
  ultimately have 1: "CHR ''/'' \<notin> set u" unfolding p(1) by auto
  have 2: "u \<noteq> []" "hd u \<noteq> CHR ''.''"
    using p(1) c hexdash_plain [OF h] by simp_all
  then have "u \<noteq> ''.''" "u \<noteq> ''..''" by auto
  with 1 2 show ?thesis by (simp add: clean_segment_def)
qed

subsection \<open>The stored paths\<close>

lemma abs_normal_segs:
  assumes "abs_normal r"
  shows "\<exists>segs. segs \<noteq> [] \<and> list_all clean_segment segs \<and> r = CHR ''/'' # join_sep segs"
proof -
  from assms obtain rest where r: "r = CHR ''/'' # rest" "list_all clean_segment (split_sep rest)"
    by (auto simp add: abs_normal_def split: list.splits)
  have "r = CHR ''/'' # join_sep (split_sep rest)" using r(1) by (simp add: join_split)
  with r(2) show ?thesis using split_sep_nonempty by blast
qed

lemma clean_last: "clean_segment seg \<Longrightarrow> last seg \<noteq> CHR ''/''"
proof -
  assume c: "clean_segment seg"
  then have "seg \<noteq> []" by (simp add: clean_segment_def)
  then have "last seg \<in> set seg" by (rule last_in_set)
  moreover have "CHR ''/'' \<notin> set seg" using c by (simp add: clean_segment_def)
  ultimately show ?thesis by metis
qed

lemma join_last_clean:
  assumes "segs \<noteq> []" and "list_all clean_segment segs"
  shows "join_sep segs \<noteq> [] \<and> last (join_sep segs) \<noteq> CHR ''/''"
proof -
  have l: "clean_segment (last segs)" using assms by (simp add: list_all_iff)
  then have n: "last segs \<noteq> []" by (simp add: clean_segment_def)
  from join_sep_nonempty [OF assms(1) n] join_sep_last [OF assms(1) n] clean_last [OF l]
  show ?thesis by simp
qed

lemma join_under:
  assumes "segs \<noteq> []" and "list_all clean_segment segs" and "clean_segment u"
  shows "os_path_join (CHR ''/'' # join_sep segs) u = CHR ''/'' # join_sep (segs @ [u])"
proof -
  from assms(3) obtain c cs where u: "u = c # cs" "c \<noteq> CHR ''/''"
    by (cases u) (auto simp add: clean_segment_def)
  from join_last_clean [OF assms(1,2)]
  have "last (CHR ''/'' # join_sep segs) \<noteq> CHR ''/''" by simp
  then have "os_path_join (CHR ''/'' # join_sep segs) u = (CHR ''/'' # join_sep segs) @ ''/'' @ u"
    unfolding os_path_join_def u using u(2) by simp
  then show ?thesis by (simp add: join_sep_snoc [OF assms(1)])
qed

lemma join_under2:
  assumes "segs \<noteq> []" and "list_all clean_segment segs" and "clean_segment u" and "clean_segment f"
  shows "os_path_join (os_path_join (CHR ''/'' # join_sep segs) u) f
           = CHR ''/'' # join_sep (segs @ [u, f])"
proof -
  have a: "segs @ [u] \<noteq> []" "list_all clean_segment (segs @ [u])" using assms by simp_all
  show ?thesis
    unfolding join_under [OF assms(1,2,3)] join_under [OF a assms(4)] by simp
qed

lemma stored_ok_pair: "clean_segment u \<Longrightarrow> clean_segment f \<Longrightarrow> stored_ok (u @ CHR ''/'' # f)"
proof -
  assume u: "clean_segment u" and f: "clean_segment f"
  then have "split_sep (u @ CHR ''/'' # f) = [u, f]"
    by (simp add: split_sep_append split_sep_plain clean_segment_def)
  with u f show ?thesis by (simp add: stored_ok_def)
qed

lemma stored_ok_form:
  assumes "stored_ok p"
  shows "\<exists>u f. p = u @ CHR ''/'' # f \<and> clean_segment u \<and> clean_segment f"
proof -
  from assms obtain u f where s: "split_sep p = [u, f]" "clean_segment u" "clean_segment f"
    by (auto simp add: stored_ok_def split: list.splits)
  have "p = join_sep [u, f]" using join_split [of p] s(1) by simp
  with s show ?thesis by auto
qed

lemma process_job_mapping:
  assumes root: "abs_normal (upload_folder cfg)" and v: "validate_input data = Inr (True, m)"
  shows "file_mapping (process_job cfg s job_id data env) = file_mapping s
       \<or> (\<exists>p. stored_ok p
            \<and> file_mapping (process_job cfg s job_id data env) = AList.update job_id p (file_mapping s))"
proof -
  from abs_normal_segs [OF root] obtain segs where
    segs: "segs \<noteq> []" "list_all clean_segment segs" "upload_folder cfg = CHR ''/'' # join_sep segs"
    by blast
  from validate_input_prompt [OF v] obtain p0 where p0: "map_of data ''prompt'' = Some (PStr p0)"
    by blast
  from validate_input_user_id [OF v] obtain u where
    u: "map_of data ''user_id'' = Some (PStr u)" "user_id_match u" by blast
  note cu = user_id_clean [OF u(2)]
  let ?f = "filename p0 (path_clock env)"
  note cf = filename_clean [of p0 "path_clock env"]
  have rel: "os_path_relpath
        (os_path_join (os_path_join (upload_folder cfg) u) ?f) (upload_folder cfg)
      = Inr (u @ CHR ''/'' # ?f)"
    unfolding segs(3) join_under2 [OF segs(1,2) cu cf]
    by (rule relpath_under [OF segs(1,2) cu cf])
  have ok: "stored_ok (u @ CHR ''/'' # ?f)" using cu cf by (rule stored_ok_pair)
  have "file_mapping (fst (process_job_try cfg s job_id data env)) = file_mapping s
       \<or> file_mapping (fst (process_job_try cfg s job_id data env))
           = AList.update job_id (u @ CHR ''/'' # ?f) (file_mapping s)"
    by (simp add: process_job_try_def p0 u(1) ensure_user_directory_def process_image_def
        rel Let_def split: option.splits sum.splits prod.splits)
  moreover have "file_mapping (process_job cfg s job_id data env)
       = file_mapping (fst (process_job_try cfg s job_id data env))"
    by (simp add: process_job_def split: prod.splits option.splits)
  ultimately show ?thesis using ok by auto
qed

lemma paths_inv_init: "paths_inv init_service"
  by (simp add: paths_inv_def init_service_def)

lemma svc_step_paths_inv:
  assumes root: "abs_normal (upload_folder cfg)" and inv: "paths_inv s" and st: "svc_step cfg s s1"
  shows "paths_inv s1"
  using st
proof (cases rule: svc_step.cases)
  case (submit job_id auth_header auth_query data now)
  from generate_cases [of cfg s auth_header auth_query data job_id now] inv
  show ?thesis unfolding submit(1) by (auto simp add: paths_inv_def)
next
  case (work job_id data env)
  let ?s0 = "s\<lparr>threads := remove1 (job_id, data) (threads s)\<rparr>"
  from inv work(2) have v: "validate_input data = Inr (True, [])"
    by (force simp add: paths_inv_def)
  have t: "\<forall>p \<in> set (threads s1). validate_input (snd p) = Inr (True, [])"
  proof
    fix p assume "p \<in> set (threads s1)"
    then have "p \<in> set (remove1 (job_id, data) (threads s))" unfolding work(1) by simp
    then have "p \<in> set (threads s)" using set_remove1_subset by fast
    with inv show "validate_input (snd p) = Inr (True, [])" by (simp add: paths_inv_def)
  qed
  have m: "\<forall>k p. map_of (file_mapping s1) k = Some p \<longrightarrow> stored_ok p"
  proof (intro allI impI)
    fix k p assume k: "map_of (file_mapping s1) k = Some p"
    from process_job_mapping [OF root v, of ?s0 job_id env]
    show "stored_ok p"
    proof
      assume "file_mapping (process_job cfg ?s0 job_id data env) = file_mapping ?s0"
      with k inv show ?thesis unfolding work(1) by (simp add: paths_inv_def)
    next
      assume "\<exists>p. stored_ok p \<and> file_mapping (process_job cfg ?s0 job_id data env)
                = AList.update job_id p (file_mapping ?s0)"
      then obtain p1 where p1: "stored_ok p1"
        "file_mapping s1 = AList.update job_id p1 (file_mapping s)"
        unfolding work(1) by auto
      show ?thesis
      proof (cases "k = job_id")
        case True
        with k p1 show ?thesis by (simp add: update_conv')
      next
        case False
        with k p1 inv show ?thesis by (simp add: update_conv' paths_inv_def)
      qed
    qed
  qed
  from t m show ?thesis by (simp add: paths_inv_def)
qed

lemma svc_reachable_paths_inv:
  "svc_reachable cfg s \<Longrightarrow> abs_normal (upload_folder cfg) \<Longrightarrow> paths_inv s"
  by (induction rule: svc_reachable.induct) (auto intro: paths_inv_init svc_step_paths_inv)

lemma normpath_pair:
  assumes u: "clean_segment u" and f: "clean_segment f"
  shows "os_path_normpath (u @ CHR ''/'' # f) = u @ CHR ''/'' # f"
proof -
  define p where "p = u @ CHR ''/'' # f"
  from u obtain c cs where c: "u = c # cs" "c \<noteq> CHR ''/''"
    by (cases u) (auto simp add: clean_segment_def)
  have ne: "p \<noteq> []" by (simp add: p_def)
  have t1: "take 1 p \<noteq> ''/''" using c(2) by (simp add: p_def c(1))
  have t1: "(take 1 p = ''/'') = False" using t1 by simp
  have ne: "(p = []) = False" using ne by simp
  have s: "split_sep p = [u, f]"
    using u f by (simp add: p_def split_sep_append split_sep_plain clean_segment_def)
  have n: "norm_comps False [u, f] [] = [u, f]"
    using norm_comps_clean [of "[u, f]" False "[]"] u f by simp
  have j: "join_sep [u, f] = p" by (simp add: p_def)
  have "os_path_normpath p = p"
    unfolding os_path_normpath_def Let_def
    by (simp only: ne t1 if_False if_True not_False_eq_True s n j less_irrefl
        replicate.simps append_Nil)
  then show ?thesis by (simp add: p_def)
qed

lemma not_dotdot_prefix:
  assumes u: "clean_segment u"
  shows "take 3 (u @ CHR ''/'' # f) \<noteq> ''../''"
proof (cases u)
  case Nil
  with u show ?thesis by (simp add: clean_segment_def)
next
  case (Cons c1 r1)
  show ?thesis
  proof (cases r1)
    case Nil
    with Cons show ?thesis by simp
  next
    case (Cons c2 r2)
    show ?thesis
    proof (cases r2)
      case Nil
      with \<open>u = c1 # r1\<close> \<open>r1 = c2 # r2\<close> u show ?thesis by (auto simp add: clean_segment_def)
    next
      case (Cons c3 r3)
      with \<open>u = c1 # r1\<close> \<open>r1 = c2 # r2\<close> u show ?thesis by (auto simp add: clean_segment_def)
    qed
  qed
qed

lemma stored_path_joins:
  assumes root: "abs_normal r" and p: "stored_ok p"
  shows "os_path_join r p = r @ ''/'' @ p" and "safe_join r p = Some (r @ ''/'' @ p)"
proof -
  from stored_ok_form [OF p] obtain u f where
    uf: "p = u @ CHR ''/'' # f" "clean_segment u" "clean_segment f" by blast
  from uf(2) obtain c cs where c: "u = c # cs" "c \<noteq> CHR ''/''"
    by (cases u) (auto simp add: clean_segment_def)
  from abs_normal_segs [OF root] obtain segs where
    segs: "segs \<noteq> []" "list_all clean_segment segs" "r = CHR ''/'' # join_sep segs" by blast
  from join_last_clean [OF segs(1,2)] have l: "last r \<noteq> CHR ''/''" "r \<noteq> []"
    unfolding segs(3) by simp_all
  have a1: "p \<noteq> []" by (simp add: uf(1))
  have a2: "hd p \<noteq> CHR ''/''" using c(2) by (simp add: uf(1) c(1))
  have a3: "take 1 p \<noteq> ''/''" using c(2) by (simp add: uf(1) c(1))
  have "CHR ''/'' \<in> set p" by (simp add: uf(1))
  then have a4: "p \<noteq> ''..''" by auto
  have a5: "take 3 p \<noteq> ''../''"
    unfolding uf(1) using uf(2) by (rule not_dotdot_prefix)
  show j: "os_path_join r p = r @ ''/'' @ p"
    using l a1 a2 by (simp add: os_path_join_def)
  have n: "os_path_normpath p = p" unfolding uf(1) using uf(2,3) by (rule normpath_pair)
  show "safe_join r p = Some (r @ ''/'' @ p)"
    using a1 a3 a4 a5 by (simp add: safe_join_def n j)
qed

subsection \<open>Scenarios: a job that completes within one second\<close>

lemma relpath_saved:
  "os_path_relpath (os_path_join alice_dir saved_name) (upload_folder cfg0)
     = Inr (alice @ ''/'' @ saved_name)"
  by (simp add: os_path_relpath_def os_path_join_def alice_dir_def saved_name_def cfg0_def
      path_parts_def os_path_normpath_def alice_def Let_def)

lemma process_image_same:
  "process_image env_same (\<lambda>p. None) (PStr ''a cat'') PNone alice_dir =
     ((\<lambda>p. None)(os_path_join alice_dir saved_name := Some (Image 7)),
      Inr (os_path_join alice_dir saved_name, PInt 42))"
  by (simp add: process_image_def env_same_def filename_noon)

lemma work_same:
  "process_job cfg0 (one_job\<lparr>threads := remove1 (job1, alice_cat) (threads one_job)\<rparr>)
     job1 alice_cat env_same = one_served"
proof -
  have e: "ensure_user_directory cfg0 env_same (PStr alice) = Inr alice_dir"
    by (simp add: ensure_user_directory_def env_same_def alice_dir_join)
  have j: "os_path_join alice_dir saved_name = alice_dir @ ''/'' @ saved_name"
    by (simp add: os_path_join_def alice_dir_def saved_name_def)
  have p: "pipeline_fault env_same = None" by (simp add: env_same_def)
  have r: "os_path_relpath (alice_dir @ CHR ''/'' # saved_name) (upload_folder cfg0)
             = Inr (alice @ ''/'' @ saved_name)"
    using relpath_saved j by simp
  show ?thesis
    by (simp add: process_job_def process_job_try_def p one_job_def alice_cat_def e
        lookup_default_def process_image_same r set_completed_def j
        one_served_def)
qed

lemma one_job_reachable: "svc_reachable cfg0 one_job"
proof -
  have "svc_step cfg0 init_service (fst (generate cfg0 init_service (Some ''secret'') None alice_cat job1 1))"
    by (rule svc_step.submit) (simp add: init_service_def)
  then show ?thesis
    using svc_reachable.start by (auto simp add: generate_first intro: svc_reachable.step)
qed

lemma one_job_thread: "(job1, alice_cat) \<in> set (threads one_job)"
  by (simp add: one_job_def)

lemma one_served_reachable: "svc_reachable cfg0 one_served"
  using svc_reachable.step [OF one_job_reachable svc_step.work [OF one_job_thread, of cfg0 env_same]]
  by (simp add: work_same)

lemma one_completed_reachable: "svc_reachable cfg0 one_completed"
  using svc_reachable.step [OF one_job_reachable svc_step.work [OF one_job_thread, of cfg0 env_tick]]
  by (simp add: work_tick)

lemma cfg0_root: "abs_normal (upload_folder cfg0)"
  by (simp add: abs_normal_def cfg0_def clean_segment_def)

lemma route_job1: "uuid_route job1 = Some job1"
  by (simp add: uuid_route_def job1_def is_hex_def lower_char_def)

lemma route_job2: "uuid_route job2 = Some job2"
  by (simp add: uuid_route_def job2_def is_hex_def lower_char_def)

lemma route_traversal: "uuid_route ''../../etc/passwd'' = None"
  by (simp add: uuid_route_def is_hex_def)

subsection \<open>The release of the slot and the faults of the worker\<close>

text \<open>
  A request that the limiter admits and that has a body reaches the \<open>try\<close> block
  of \<open>generate_image\<close>; whatever happens there, the \<open>finally\<close> brings every user's
  counter back to its value before the request. When the \<open>try\<close> block of
  \<open>process_job\<close> raises, the job is marked \<open>failed\<close> with the exception's text; a
  fault of the generation is such an exception.
\<close>

lemma admitted_request_releases_slot:
  assumes reach: "sys_reachable cfg sys"
    and adm: "fst (snd (check_rate_limit (public_tier sys) (Some u) t0 t1))"
    and ne: "request_json \<noteq> []"
  shows "running_jobs (public_tier
           (fst (generate_image cfg sys (Some u) request_json t0 t1 network job_id now))) v
         = running_jobs (public_tier sys) v"
proof -
  note u = admitted_nonempty_user [OF adm]
  have "0 \<le> running_jobs (public_tier sys) u"
    using reach by (rule sys_reachable_running_nonneg)
  then show ?thesis
    by (simp add: generate_image_admitted [OF adm ne] running_jobs_complete
        running_jobs_admitted [OF u adm])
qed

lemma worker_fault_marks_failed:
  assumes "process_job_try cfg s job_id data env = (s1, Some e)"
    and "map_of (jobs s) job_id = Some j"
  shows "map_of (jobs (process_job cfg s job_id data env)) job_id
           = Some (j\<lparr>status := Failed, job_error := Some (exc_text e)\<rparr>)"
  using assms process_job_try_jobs_raise [OF assms(1)]
  by (simp add: process_job_def set_failed_same)

lemma generation_fault_raises:
  assumes "pipeline_fault env = None" and "map_of data ''prompt'' = Some p"
    and "map_of data ''user_id'' = Some (PStr u)" and "mkdir_fault env = None"
    and "generated env = Inl m"
  shows "process_job_try cfg s job_id data env = (s, Some (RuntimeFault m))"
  using assms
  by (simp add: process_job_try_def ensure_user_directory_def process_image_def)

section \<open>Claims about admission\<close>

text \<open>
  Claim C5, as the code has it. The admission check reports the first limit that fails, in
  the order per-user count (at least 3), per-user running jobs (at least 2), global count
  (at least 10). The counts are those of the stored timestamp lists after
  \<open>cleanup_old_requests\<close>, which prunes them to the trailing window only when at least
  10 seconds have passed since the last pruning and leaves them as they are otherwise.
\<close>

theorem check_rate_limit_order:
  assumes "user_id \<noteq> []"
  shows "snd (check_rate_limit s (Some user_id) t0 t1) =
           (let s1 = cleanup_old_requests s t0 in
            if request_count s1 user_id \<ge> MAX_REQUESTS_PER_USER then (False, rate_msg)
            else if running_jobs s1 user_id \<ge> MAX_CONCURRENT_JOBS then (False, concurrent_msg)
            else if total_requests s1 \<ge> GLOBAL_RATE_LIMIT then (False, busy_msg)
            else (True, []))
       \<and> (t0 - last_cleanup s < 10 \<longrightarrow> cleanup_old_requests s t0 = s)
       \<and> (10 \<le> t0 - last_cleanup s \<longrightarrow>
            request_count (cleanup_old_requests s t0) user_id = trailing_count s user_id t0)
       \<and> MAX_REQUESTS_PER_USER = 3 \<and> MAX_CONCURRENT_JOBS = 2 \<and> GLOBAL_RATE_LIMIT = 10"
proof (intro conjI impI)
  show "snd (check_rate_limit s (Some user_id) t0 t1) =
           (let s1 = cleanup_old_requests s t0 in
            if request_count s1 user_id \<ge> MAX_REQUESTS_PER_USER then (False, rate_msg)
            else if running_jobs s1 user_id \<ge> MAX_CONCURRENT_JOBS then (False, concurrent_msg)
            else if total_requests s1 \<ge> GLOBAL_RATE_LIMIT then (False, busy_msg)
            else (True, []))"
    using assms by (rule check_rate_limit_verdict)
next
  assume "t0 - last_cleanup s < 10"
  then show "cleanup_old_requests s t0 = s"
    by (simp add: cleanup_old_requests_def)
next
  assume "10 \<le> t0 - last_cleanup s"
  then show "request_count (cleanup_old_requests s t0) user_id = trailing_count s user_id t0"
    by (simp add: cleanup_old_requests_def request_count_def trailing_count_def
        lookup_cleanup_loop in_trailing_window_def [abs_def])
qed (simp_all add: MAX_REQUESTS_PER_USER_def MAX_CONCURRENT_JOBS_def GLOBAL_RATE_LIMIT_def)

theorem check_rate_limit_order_witness:
  "''u'' \<noteq> []
   \<and> snd (check_rate_limit (init_limiter 0) (Some ''u'') 1 1) = (True, [])
   \<and> cleanup_old_requests (init_limiter 0) 1 = init_limiter 0
   \<and> request_count (cleanup_old_requests (init_limiter 0) 20) ''u''
       = trailing_count (init_limiter 0) ''u'' 20"
proof -
  have u: "''u'' \<noteq> []" by simp
  have a: "snd (check_rate_limit (init_limiter 0) (Some ''u'') 1 1) = (True, [])"
    by (simp add: lim_eval)
  have b: "(1::real) - last_cleanup (init_limiter 0) < 10" "(10::real) \<le> 20 - last_cleanup (init_limiter 0)"
    by (simp_all add: init_limiter_def)
  from check_rate_limit_order [OF u, of "init_limiter 0" 1 1] b(1)
  have c: "cleanup_old_requests (init_limiter 0) 1 = init_limiter 0" by blast
  from check_rate_limit_order [OF u, of "init_limiter 0" 20 20] b(2)
  have d: "request_count (cleanup_old_requests (init_limiter 0) 20) ''u''
       = trailing_count (init_limiter 0) ''u'' 20" by blast
  from u a c d show ?thesis by blast
qed

text \<open>
  Claim C5 as stated fails: after \<open>stale_run\<close> the last pruning was at 60 seconds, so
  the check at 65 seconds prunes nothing. It refuses the user for the per-user limit
  although none of the user's timestamps lies in the trailing window of that moment, and
  the three stale timestamps stay stored.
\<close>

theorem stale_timestamps_counterexample:
  "snd (check_rate_limit (lim_run (init_limiter 0) stale_run) (Some ''u'') 65 65) = (False, rate_msg)
   \<and> trailing_count (lim_run (init_limiter 0) stale_run) ''u'' 65 = 0
   \<and> lookup_default [] (user_request_times
        (fst (check_rate_limit (lim_run (init_limiter 0) stale_run) (Some ''u'') 65 65))) ''u''
       = [1, 2, 3]"
  unfolding stale_state
  by (simp add: lim_eval trailing_count_def in_trailing_window_def)

text \<open>
  Claim C6. In every run of the limiter whose clock never goes back, started from the
  empty limiter, every window \<open>[a, a + 60)\<close> holds at most 3 admitted requests of any one
  user and at most 10 admitted requests in all.
\<close>

theorem admitted_within_limits:
  assumes "well_timed t_start evs"
  shows "user_window_count (admitted (init_limiter t_start) evs) u a \<le> MAX_REQUESTS_PER_USER
       \<and> global_window_count (admitted (init_limiter t_start) evs) a \<le> GLOBAL_RATE_LIMIT"
proof -
  have "window_bounded []"
    by (simp add: window_bounded_def user_window_count_def global_window_count_def)
  from run_window_bounded [OF init_inv _ this assms]
  have "window_bounded (admitted (init_limiter t_start) evs)" by simp
  then show ?thesis by (simp add: window_bounded_def)
qed

theorem admitted_within_limits_witness:
  "well_timed 0 stale_run
   \<and> user_window_count (admitted (init_limiter 0) stale_run) ''u'' 0 \<le> MAX_REQUESTS_PER_USER
   \<and> global_window_count (admitted (init_limiter 0) stale_run) 0 \<le> GLOBAL_RATE_LIMIT"
proof -
  have w: "well_timed 0 stale_run" by (simp add: stale_run_def)
  from w admitted_within_limits [OF w, of "''u''" 0] show ?thesis by blast
qed

section \<open>Claims about the public tier's handler\<close>

text \<open>
  Claim C2: the code does not keep it. The handler admits the request (the user's counter
  goes up) and only then looks at the body; for the empty body \<open>{}\<close> it returns 400
  "No data provided" above the \<open>try\<close>/\<open>finally\<close> that releases the slot. Each such
  request leaves the counter one higher, and after two of them every later request of the
  user is refused for too many concurrent jobs, also long after the window has passed.
\<close>

theorem empty_body_leaks_slot:
  "running_jobs (public_tier (init_system 0)) alice = 0
   \<and> generate_image cfg0 (init_system 0) (Some alice) [] 1 1 Delivered job1 1
       = (leaked_once, 400, JFail ''No data provided'')
   \<and> running_jobs (public_tier leaked_once) alice = 1
   \<and> generate_image cfg0 leaked_once (Some alice) [] 2 2 Delivered job2 2
       = (leaked_twice, 400, JFail ''No data provided'')
   \<and> running_jobs (public_tier leaked_twice) alice = 2
   \<and> snd (generate_image cfg0 leaked_twice (Some alice) cat_request 200 200 Delivered job3 200)
       = (429, JFail concurrent_msg)"
  by (simp add: leak_first leak_second leak_third leak_running_jobs)

text \<open>
  Claim C3, as the code has it. A request without a session is answered 401 and changes
  nothing. A request that the limiter admits, that has a body, and that
  \<open>validate_request_data\<close> rejects is answered 400 with the validator's reason; no job
  is created and every user's running-job counter is what it was before; but the
  request's timestamp has been appended to the user's list, so the rejected request
  counts towards the per-user and the global limit.
\<close>

theorem rejected_requests_effects:
  assumes reach: "sys_reachable cfg sys"
  shows "generate_image cfg sys None request_json t0 t1 network job_id now
           = (sys, 401, JFail ''No user session found'')
       \<and> (fst (snd (check_rate_limit (public_tier sys) (Some u) t0 t1)) \<and> request_json \<noteq> []
            \<and> validate_request_data request_json = Inr (False, msg) \<longrightarrow>
          snd (generate_image cfg sys (Some u) request_json t0 t1 network job_id now) = (400, JFail msg)
          \<and> internal_tier (fst (generate_image cfg sys (Some u) request_json t0 t1 network job_id now))
              = internal_tier sys
          \<and> (\<forall>v. running_jobs (public_tier (fst (generate_image cfg sys (Some u) request_json t0 t1 network job_id now))) v
                = running_jobs (public_tier sys) v)
          \<and> lookup_default [] (user_request_times (public_tier
                (fst (generate_image cfg sys (Some u) request_json t0 t1 network job_id now)))) u
              = lookup_default [] (user_request_times (cleanup_old_requests (public_tier sys) t0)) u @ [t1])"
proof (intro conjI impI)
  show "generate_image cfg sys None request_json t0 t1 network job_id now
           = (sys, 401, JFail ''No user session found'')"
    by (simp add: generate_image_def)
next
  assume a: "fst (snd (check_rate_limit (public_tier sys) (Some u) t0 t1)) \<and> request_json \<noteq> []
            \<and> validate_request_data request_json = Inr (False, msg)"
  then have adm: "fst (snd (check_rate_limit (public_tier sys) (Some u) t0 t1))"
    and ne: "request_json \<noteq> []" and inv: "validate_request_data request_json = Inr (False, msg)"
    by simp_all
  note u = admitted_nonempty_user [OF adm]
  note gi = generate_image_admitted [OF adm ne, of cfg network job_id now]
  note di = dispatch_invalid [OF inv, of cfg "internal_tier sys" u network job_id now]
  have nn: "0 \<le> running_jobs (public_tier sys) u"
    using reach by (rule sys_reachable_running_nonneg)
  show "snd (generate_image cfg sys (Some u) request_json t0 t1 network job_id now) = (400, JFail msg)"
    by (simp add: gi di)
  show "internal_tier (fst (generate_image cfg sys (Some u) request_json t0 t1 network job_id now))
              = internal_tier sys"
    by (simp add: gi di)
  show "\<forall>v. running_jobs (public_tier (fst (generate_image cfg sys (Some u) request_json t0 t1 network job_id now))) v
                = running_jobs (public_tier sys) v"
    using nn by (simp add: gi running_jobs_complete running_jobs_admitted [OF u adm])
  show "lookup_default [] (user_request_times (public_tier
                (fst (generate_image cfg sys (Some u) request_json t0 t1 network job_id now)))) u
              = lookup_default [] (user_request_times (cleanup_old_requests (public_tier sys) t0)) u @ [t1]"
    using adm by (simp add: gi check_rate_limit_times [OF u] Let_def lookup_update)
qed

theorem rejected_requests_effects_witness:
  "sys_reachable cfg0 (init_system 0)
   \<and> generate_image cfg0 (init_system 0) None long_request 1 1 Delivered job1 1
       = (init_system 0, 401, JFail ''No user session found'')
   \<and> fst (snd (check_rate_limit (public_tier (init_system 0)) (Some alice) 1 1))
   \<and> long_request \<noteq> []
   \<and> validate_request_data long_request = Inr (False, ''Prompt too long'')
   \<and> snd (generate_image cfg0 (init_system 0) (Some alice) long_request 1 1 Delivered job1 1)
       = (400, JFail ''Prompt too long'')
   \<and> internal_tier (fst (generate_image cfg0 (init_system 0) (Some alice) long_request 1 1 Delivered job1 1))
       = internal_tier (init_system 0)
   \<and> running_jobs (public_tier (fst (generate_image cfg0 (init_system 0) (Some alice) long_request 1 1 Delivered job1 1))) alice
       = running_jobs (public_tier (init_system 0)) alice
   \<and> lookup_default [] (user_request_times (public_tier
        (fst (generate_image cfg0 (init_system 0) (Some alice) long_request 1 1 Delivered job1 1)))) alice
       = lookup_default [] (user_request_times (cleanup_old_requests (public_tier (init_system 0)) 1)) alice @ [1]"
proof -
  have r: "sys_reachable cfg0 (init_system 0)" by (rule sys_reachable.sys_start)
  have a: "fst (snd (check_rate_limit (public_tier (init_system 0)) (Some alice) 1 1))"
    by (simp add: init_system_def alice_admitted_fresh)
  have n: "long_request \<noteq> []" by (simp add: long_request_def)
  from rejected_requests_effects [OF r, of long_request 1 1 Delivered job1 1 alice
      "''Prompt too long''"] a n long_invalid r
  show ?thesis by simp
qed

text \<open>
  Claim C3 as stated fails: a request with a prompt of 500 characters, sent by a user
  with a session to the fresh system, is answered 400 "Prompt too long", yet the rate
  limiter has recorded the request's timestamp.
\<close>

theorem validation_after_admission_counterexample:
  "snd (generate_image cfg0 (init_system 0) (Some alice) long_request 1 1 Delivered job1 1)
     = (400, JFail ''Prompt too long'')
   \<and> user_request_times (public_tier (init_system 0)) = []
   \<and> user_request_times (public_tier
        (fst (generate_image cfg0 (init_system 0) (Some alice) long_request 1 1 Delivered job1 1)))
     = [(alice, [1])]"
  by (simp add: generate_image_def init_system_def alice_admitted_fresh long_request_def [symmetric]
      dispatch_invalid [OF long_invalid] rate_limit_complete_def dd_get_def)
     (simp add: long_request_def init_limiter_def)

text \<open>
  Claim C7: the code does not keep it. \<open>validate_request_data\<close> has no check of the
  prompt's characters, so the prompt \<open>a#b\<close> is forwarded; the internal tier rejects it
  with 400 "Prompt contains invalid characters", \<open>raise_for_status\<close> turns that answer
  into an exception, and the public tier answers 500 with the transport error's text.
\<close>

theorem invalid_characters_give_500:
  "validate_request_data bad_chars_request = Inr (True, [])
   \<and> snd (generate cfg0 init_service (Some (auth_token cfg0)) None
        (AList.update ''user_id'' (PStr alice) bad_chars_request) job1 1)
       = (400, JErr ''Prompt contains invalid characters'')
   \<and> snd (generate_image cfg0 (init_system 0) (Some alice) bad_chars_request 1 1 Delivered job1 1)
       = (500, JFail ''Error communicating with AI service: 400 Client Error: BAD REQUEST for url: http://localhost:5001/generate'')"
proof -
  have g: "generate cfg0 init_service (Some (auth_token cfg0)) None
             (AList.update ''user_id'' (PStr alice) bad_chars_request) job1 1
           = (init_service, 400, JErr ''Prompt contains invalid characters'')"
    by (simp add: generate_def bad_invalid_svc authorized_def cfg0_def)
       (simp add: bad_chars_request_def)
  have d: "dispatch cfg0 init_service alice bad_chars_request Delivered job1 1 =
        (init_service, 500, JFail ''Error communicating with AI service: 400 Client Error: BAD REQUEST for url: http://localhost:5001/generate'')"
    by (simp add: dispatch_def bad_valid_gw g http_error_text_def http_reason_def show_400)
  have "snd (generate_image cfg0 (init_system 0) (Some alice) bad_chars_request 1 1 Delivered job1 1)
       = (500, JFail ''Error communicating with AI service: 400 Client Error: BAD REQUEST for url: http://localhost:5001/generate'')"
    by (simp add: generate_image_def init_system_def alice_admitted_fresh d)
       (simp add: bad_chars_request_def)
  with g bad_valid_gw show ?thesis by simp
qed

section \<open>Claims about the job lifecycle and the artifacts\<close>

text \<open>
  Claim C1: the code does not keep it. The public tier releases the user's slot in the
  \<open>finally\<close> of \<open>generate_image\<close>, when the internal tier has answered the
  forwarded request, and the internal tier answers as soon as the job is started. So
  the counter is back at 0 while the job is still processing: three requests of one user
  at 1, 2 and 3 seconds are all admitted and leave three jobs of that user in status
  \<open>processing\<close>, one more than \<open>MAX_CONCURRENT_JOBS\<close>.
\<close>


theorem three_jobs_processing:
  "sys_reachable cfg0 submitted_thrice
   \<and> generate_image cfg0 (init_system 0) (Some alice) cat_request 1 1 Delivered job1 1
       = (submitted_once, 200, JAccepted job1)
   \<and> generate_image cfg0 submitted_once (Some alice) cat_request 2 2 Delivered job2 2
       = (submitted_twice, 200, JAccepted job2)
   \<and> generate_image cfg0 submitted_twice (Some alice) cat_request 3 3 Delivered job3 3
       = (submitted_thrice, 200, JAccepted job3)
   \<and> processing_jobs_of (internal_tier submitted_thrice) alice = 3
   \<and> MAX_CONCURRENT_JOBS = 2
   \<and> running_jobs (public_tier submitted_thrice) alice = 0"
proof -
  have p: "processing_jobs_of (internal_tier submitted_thrice) alice = 3"
    by (simp add: processing_jobs_of_def submitted_thrice_def new_job_def owner_def
        alice_cat_def lookup_default_def)
  have r: "running_jobs (public_tier submitted_thrice) alice = 0"
    by (simp add: running_jobs_def submitted_thrice_def lookup_default_def)
  from submitted_thrice_reachable first_submission second_submission third_submission p r
  show ?thesis by (simp add: MAX_CONCURRENT_JOBS_def)
qed

text \<open>
  Claim C4. For every request to the internal tier's \<open>/generate\<close> that carries the
  token and passes \<open>validate_input\<close>, the handler stores the job as \<open>processing\<close>,
  starts the thread and answers 200 with \<open>success\<close>, the job id and the status
  \<open>processing\<close>. The answer is computed from the request, the job id and the clock
  alone; the generation is a later step of the thread, enabled in the state the handler
  leaves, whatever its outcome will be.
\<close>


theorem generate_returns_without_waiting:
  assumes "authorized cfg auth_header auth_query" and "validate_input data = Inr (True, m)"
  shows "generate cfg svc auth_header auth_query data job_id now =
           (svc\<lparr>jobs := AList.update job_id (new_job now data) (jobs svc),
                 threads := threads svc @ [(job_id, data)]\<rparr>,
            200, JAccepted job_id)
       \<and> map_of (jobs (fst (generate cfg svc auth_header auth_query data job_id now))) job_id
           = Some (new_job now data)
       \<and> (\<forall>env. svc_step cfg (fst (generate cfg svc auth_header auth_query data job_id now))
            (process_job cfg
               ((fst (generate cfg svc auth_header auth_query data job_id now))
                  \<lparr>threads := remove1 (job_id, data)
                     (threads (fst (generate cfg svc auth_header auth_query data job_id now)))\<rparr>)
               job_id data env))"
proof -
  from validate_input_prompt [OF assms(2)] validate_input_user_id [OF assms(2)]
  have k: "map_of data ''prompt'' \<noteq> None" "map_of data ''user_id'' \<noteq> None" by auto
  note g = generate_accepts [OF assms(1) k assms(2), of svc job_id now]
  have 1: "generate cfg svc auth_header auth_query data job_id now =
           (svc\<lparr>jobs := AList.update job_id (new_job now data) (jobs svc),
                 threads := threads svc @ [(job_id, data)]\<rparr>,
            200, JAccepted job_id)"
    by (simp add: g new_job_def)
  have 2: "map_of (jobs (fst (generate cfg svc auth_header auth_query data job_id now))) job_id
           = Some (new_job now data)"
    by (simp add: 1 update_conv')
  have 3: "svc_step cfg (fst (generate cfg svc auth_header auth_query data job_id now))
            (process_job cfg
               ((fst (generate cfg svc auth_header auth_query data job_id now))
                  \<lparr>threads := remove1 (job_id, data)
                     (threads (fst (generate cfg svc auth_header auth_query data job_id now)))\<rparr>)
               job_id data env)" for env
    by (rule svc_step.work) (simp add: 1)
  from 1 2 3 show ?thesis by blast
qed

theorem generate_returns_without_waiting_witness:
  "authorized cfg0 (Some ''secret'') None
   \<and> validate_input alice_cat = Inr (True, [])
   \<and> generate cfg0 init_service (Some ''secret'') None alice_cat job1 1
       = (init_service\<lparr>jobs := AList.update job1 (new_job 1 alice_cat) (jobs init_service),
                        threads := threads init_service @ [(job1, alice_cat)]\<rparr>,
          200, JAccepted job1)
   \<and> map_of (jobs (fst (generate cfg0 init_service (Some ''secret'') None alice_cat job1 1))) job1
       = Some (new_job 1 alice_cat)"
  using generate_returns_without_waiting [OF cfg0_authorized alice_cat_valid, of init_service job1 1]
    cfg0_authorized alice_cat_valid
  by blast

text \<open>
  Claim C8. In every reachable state of the internal tier and after any number of
  further steps: a read of a job's status that returned \<open>completed\<close> or \<open>failed\<close>
  is repeated unchanged (with the same result or error) by every later read; a job read
  as \<open>processing\<close> is still known later, with the same start time; and when two reads
  of a job differ in status, the earlier one was \<open>processing\<close> and the later one is
  \<open>completed\<close> or \<open>failed\<close>.
\<close>


theorem terminal_status_is_final:
  assumes reach: "svc_reachable cfg s" and steps: "(svc_step cfg)\<^sup>*\<^sup>* s s1"
    and a: "authorized cfg h q" and a1: "authorized cfg h1 q1"
  shows "(get_job_status cfg s h q job_id = (200, JStatus st t r e) \<and> st \<noteq> Processing \<longrightarrow>
            get_job_status cfg s1 h1 q1 job_id = (200, JStatus st t r e))
       \<and> (get_job_status cfg s h q job_id = (200, JStatus Processing t r e) \<longrightarrow>
            (\<exists>st1 r1 e1. get_job_status cfg s1 h1 q1 job_id = (200, JStatus st1 t r1 e1)))
       \<and> (get_job_status cfg s h q job_id = (200, JStatus st t r e)
            \<and> get_job_status cfg s1 h1 q1 job_id = (200, JStatus st1 t1 r1 e1) \<and> st1 \<noteq> st \<longrightarrow>
            st = Processing \<and> (st1 = Completed \<or> st1 = Failed))"
proof (intro conjI impI)
  note inv = svc_reachable_inv [OF reach]
  {
    assume "get_job_status cfg s h q job_id = (200, JStatus st t r e) \<and> st \<noteq> Processing"
    then have g: "get_job_status cfg s h q job_id = (200, JStatus st t r e)" and n: "st \<noteq> Processing"
      by simp_all
    from g [unfolded get_job_status_read [OF a]] obtain j where
      j: "map_of (jobs s) job_id = Some j" "status j = st" "started_at j = t"
         "(case st of
           Processing \<Rightarrow> r = None \<and> e = None
         | Completed \<Rightarrow> r = job_result j \<and> r \<noteq> None \<and> e = None
         | Failed \<Rightarrow> r = None \<and> e = job_error j \<and> e \<noteq> None)" by blast
    from svc_steps_terminal [OF steps inv j(1)] n j(2)
    have "map_of (jobs s1) job_id = Some j" by simp
    with j show "get_job_status cfg s1 h1 q1 job_id = (200, JStatus st t r e)"
      unfolding get_job_status_read [OF a1] by blast
  }
  {
    assume g: "get_job_status cfg s h q job_id = (200, JStatus Processing t r e)"
    from g [unfolded get_job_status_read [OF a]] obtain j where
      j: "map_of (jobs s) job_id = Some j" "started_at j = t" by auto
    from svc_steps_job_kept [OF steps inv j(1)] obtain j1 where
      j1: "map_of (jobs s1) job_id = Some j1" "started_at j1 = started_at j" by blast
    from svc_steps_inv [OF steps inv] j1(1)
    have w: "(status j1 = Completed \<longrightarrow> job_result j1 \<noteq> None) \<and>
        (status j1 = Failed \<longrightarrow> job_error j1 \<noteq> None)"
      by (simp add: svc_inv_def)
    show "\<exists>st1 r1 e1. get_job_status cfg s1 h1 q1 job_id = (200, JStatus st1 t r1 e1)"
      unfolding get_job_status_read [OF a1]
      using j1 j(2) w by (cases "status j1") auto
  }
  {
    assume d: "get_job_status cfg s h q job_id = (200, JStatus st t r e)
            \<and> get_job_status cfg s1 h1 q1 job_id = (200, JStatus st1 t1 r1 e1) \<and> st1 \<noteq> st"
    have p: "st = Processing"
    proof (rule ccontr)
      assume n: "st \<noteq> Processing"
      from d [unfolded get_job_status_read [OF a]] obtain j where
        j: "map_of (jobs s) job_id = Some j" "status j = st" by blast
      from svc_steps_terminal [OF steps inv j(1)] n j(2)
      have "map_of (jobs s1) job_id = Some j" by simp
      with d [unfolded get_job_status_read [OF a1]] j(2) show False by auto
    qed
    then show "st = Processing" .
    from p d show "st1 = Completed \<or> st1 = Failed" by (cases st1) auto
  }
qed

theorem terminal_status_is_final_witness:
  "svc_reachable cfg0 one_failed
   \<and> (svc_step cfg0)\<^sup>*\<^sup>* one_failed failed_and_new
   \<and> authorized cfg0 (Some ''secret'') None
   \<and> get_job_status cfg0 one_failed (Some ''secret'') None job1
       = (200, JStatus Failed 1 None (Some ''CUDA out of memory''))
   \<and> get_job_status cfg0 failed_and_new (Some ''secret'') None job1
       = (200, JStatus Failed 1 None (Some ''CUDA out of memory''))"
proof -
  have s: "(svc_step cfg0)\<^sup>*\<^sup>* one_failed failed_and_new"
    using one_failed_step by (rule r_into_rtranclp)
  from terminal_status_is_final [OF one_failed_reachable s cfg0_authorized cfg0_authorized,
      of job1 Failed 1 None "Some ''CUDA out of memory''"] one_failed_read
  have "get_job_status cfg0 failed_and_new (Some ''secret'') None job1
       = (200, JStatus Failed 1 None (Some ''CUDA out of memory''))" by simp
  with one_failed_reachable s cfg0_authorized one_failed_read show ?thesis by blast
qed

text \<open>
  Claim C9. With an absolute, normalised \<open>UPLOAD_FOLDER\<close> and in every reachable
  state of the internal tier, \<open>serve_image\<close> is a lookup of the identifier in
  \<open>file_mapping\<close>: an identifier that is no UUID (such as \<open>../../etc/passwd\<close>) is
  refused by the router, one that is not registered gets 404, and for a registered one
  the only file read is the stored path under \<open>UPLOAD_FOLDER\<close>, every stored path being
  of the form \<open>user/file\<close> with two plain names.
\<close>


theorem serve_image_is_mapping_lookup:
  assumes root: "abs_normal (upload_folder cfg)" and reach: "svc_reachable cfg s"
  shows "serve_image cfg s auth_header auth_query raw_id =
          (case uuid_route raw_id of
             None \<Rightarrow> (404, RouteMiss)
           | Some file_id \<Rightarrow>
               if \<not> authorized cfg auth_header auth_query then (401, JErr ''Unauthorized'')
               else
                 (case map_of (file_mapping s) file_id of
                    None \<Rightarrow> (404, JErr ''Image not found'')
                  | Some p \<Rightarrow>
                      (case files s (upload_folder cfg @ ''/'' @ p) of
                         None \<Rightarrow> (404, JErr ''Image not found'')
                       | Some img \<Rightarrow> (200, FileBody img))))
       \<and> (\<forall>file_id p. map_of (file_mapping s) file_id = Some p \<longrightarrow> stored_ok p)
       \<and> uuid_route ''../../etc/passwd'' = None"
proof (intro conjI)
  note inv = svc_reachable_paths_inv [OF reach root]
  show ok: "\<forall>file_id p. map_of (file_mapping s) file_id = Some p \<longrightarrow> stored_ok p"
    using inv by (simp add: paths_inv_def)
  show "uuid_route ''../../etc/passwd'' = None" by (rule route_traversal)
  show "serve_image cfg s auth_header auth_query raw_id =
          (case uuid_route raw_id of
             None \<Rightarrow> (404, RouteMiss)
           | Some file_id \<Rightarrow>
               if \<not> authorized cfg auth_header auth_query then (401, JErr ''Unauthorized'')
               else
                 (case map_of (file_mapping s) file_id of
                    None \<Rightarrow> (404, JErr ''Image not found'')
                  | Some p \<Rightarrow>
                      (case files s (upload_folder cfg @ ''/'' @ p) of
                         None \<Rightarrow> (404, JErr ''Image not found'')
                       | Some img \<Rightarrow> (200, FileBody img))))"
  proof (cases "uuid_route raw_id")
    case None
    then show ?thesis by (simp add: serve_image_def)
  next
    case (Some file_id)
    show ?thesis
    proof (cases "map_of (file_mapping s) file_id")
      case None
      with Some show ?thesis by (simp add: serve_image_def)
    next
      case (Some p)
      with ok have "stored_ok p" by blast
      note j = stored_path_joins [OF root this]
      show ?thesis
        using Some \<open>uuid_route raw_id = Some file_id\<close>
        by (simp add: serve_image_def j split: option.splits)
    qed
  qed
qed

theorem serve_image_is_mapping_lookup_witness:
  "abs_normal (upload_folder cfg0)
   \<and> svc_reachable cfg0 one_served
   \<and> serve_image cfg0 one_served (Some ''secret'') None job1 = (200, FileBody (Image 7))
   \<and> serve_image cfg0 one_served (Some ''secret'') None ''../../etc/passwd'' = (404, RouteMiss)
   \<and> serve_image cfg0 one_served (Some ''secret'') None job2 = (404, JErr ''Image not found'')
   \<and> stored_ok (alice @ ''/'' @ saved_name)"
proof -
  note t = serve_image_is_mapping_lookup [OF cfg0_root one_served_reachable]
  have m: "map_of (file_mapping one_served) job1 = Some (alice @ ''/'' @ saved_name)"
    "map_of (file_mapping one_served) job2 = None"
    using job_ids_distinct by (simp_all add: one_served_def)
  have f: "files one_served (upload_folder cfg0 @ ''/'' @ (alice @ ''/'' @ saved_name))
             = Some (Image 7)"
    by (simp add: one_served_def cfg0_def alice_def alice_dir_def)
  have 1: "serve_image cfg0 one_served (Some ''secret'') None job1 = (200, FileBody (Image 7))"
    using t [of "Some ''secret''" None job1] f
    by (simp add: route_job1 cfg0_authorized m)
  have 2: "serve_image cfg0 one_served (Some ''secret'') None ''../../etc/passwd'' = (404, RouteMiss)"
    using t [of "Some ''secret''" None "''../../etc/passwd''"]
    by (simp add: route_traversal)
  have 3: "serve_image cfg0 one_served (Some ''secret'') None job2 = (404, JErr ''Image not found'')"
    using t [of "Some ''secret''" None job2]
    by (simp add: route_job2 cfg0_authorized m)
  have 4: "stored_ok (alice @ ''/'' @ saved_name)"
    using t [of None None job1] m(1) by blast
  from cfg0_root one_served_reachable 1 2 3 4 show ?thesis by blast
qed


text \<open>
  Claim C10: the code does not keep it. \<open>save_image\<close> names the file from one reading
  of the clock and \<open>process_image\<close> builds the returned path from a second reading.
  When the second reading falls into the next second, the job is completed and its file
  is on disk, but \<open>file_mapping\<close> holds a path that names no file, and \<open>serve_image\<close>
  answers 404 for the completed job.
\<close>

theorem mapped_path_misses_saved_file:
  "svc_reachable cfg0 one_completed
   \<and> process_job cfg0 (one_job\<lparr>threads := remove1 (job1, alice_cat) (threads one_job)\<rparr>)
        job1 alice_cat env_tick = one_completed
   \<and> filename ''a cat'' (save_clock env_tick) = saved_name
   \<and> filename ''a cat'' (path_clock env_tick) = mapped_name
   \<and> saved_name \<noteq> mapped_name
   \<and> get_job_status cfg0 one_completed (Some ''secret'') None job1
       = (200, JStatus Completed 1 (Some (job1, ''/output/'' @ job1, PInt 42)) None)
   \<and> map_of (file_mapping one_completed) job1 = Some (alice @ ''/'' @ mapped_name)
   \<and> files one_completed (alice_dir @ ''/'' @ saved_name) = Some (Image 7)
   \<and> files one_completed (alice_dir @ ''/'' @ mapped_name) = None
   \<and> serve_image cfg0 one_completed (Some ''secret'') None job1 = (404, JErr ''Image not found'')"
proof -
  have 1: "filename ''a cat'' (save_clock env_tick) = saved_name"
    "filename ''a cat'' (path_clock env_tick) = mapped_name"
    by (simp_all add: env_tick_def filename_noon filename_second)
  have 2: "saved_name \<noteq> mapped_name" by (simp add: saved_name_def mapped_name_def)
  have 3: "get_job_status cfg0 one_completed (Some ''secret'') None job1
       = (200, JStatus Completed 1 (Some (job1, ''/output/'' @ job1, PInt 42)) None)"
    by (simp add: get_job_status_def cfg0_authorized one_completed_def new_job_def)
  have 4: "map_of (file_mapping one_completed) job1 = Some (alice @ ''/'' @ mapped_name)"
    by (simp add: one_completed_def)
  have 5: "files one_completed (alice_dir @ ''/'' @ saved_name) = Some (Image 7)"
    "files one_completed (alice_dir @ ''/'' @ mapped_name) = None"
    using 2 by (simp_all add: one_completed_def)
  have j: "os_path_join (upload_folder cfg0) (alice @ ''/'' @ mapped_name)
             = alice_dir @ ''/'' @ mapped_name"
    by (simp add: os_path_join_def cfg0_def alice_def alice_dir_def)
  have 6: "serve_image cfg0 one_completed (Some ''secret'') None job1 = (404, JErr ''Image not found'')"
    using 4 5(2) j by (simp add: serve_image_def route_job1 cfg0_authorized)
  from one_completed_reachable work_tick 1 2 3 4 5 6 show ?thesis by blast
qed


end

